theory Spec2Isabelle
  imports Main "HOL-Library.Multiset"
begin

section \<open>BankSim3000: a bank and teller discrete-event simulation\<close>

text \<open>
  A shallow embedding of \<^verbatim>\<open>main.cpp\<close>. Mutation of the \<^verbatim>\<open>BankSim3000\<close> object is explicit
  state passing: every member function takes the object and returns the object as it is
  when the call ends, together with either the returned value or the exception
  (\<open>Inl\<close>) that ended it.

  \<^verbatim>\<open>Time\<close> is C++ \<^verbatim>\<open>int\<close>, 32 bits in two's complement. Its values are the integers
  from \<open>INT_MIN\<close> to \<open>INT_MAX\<close>, compared as integers. The language leaves signed
  overflow undefined; the compiled program wraps around, and every sum and difference
  the program forms is written here with that wrap-around: \<open>time_add\<close>
  and \<open>time_sub\<close> bring the result back into that range, so that a run over an input of
  such values holds such values only (lemma \<open>run_int32\<close>). \<^verbatim>\<open>size_t\<close> values are only
  compared, counted up to a vector's size and used as indices: they are \<open>nat\<close>.
\<close>

subsection \<open>Time\<close>

type_synonym Time = int
type_synonym TellerIndex = nat

definition INT_MAX :: int where
  "INT_MAX = 2147483647"

definition INT_MIN :: int where
  "INT_MIN = - 2147483648"

text \<open>The value of 32 bits that is congruent to \<open>x\<close> modulo \<open>2 ^ 32\<close>.\<close>

definition wrap32 :: "int \<Rightarrow> Time" where
  "wrap32 x = (x + 2147483648) mod 4294967296 - 2147483648"

text \<open>\<^verbatim>\<open>a + b\<close> and \<^verbatim>\<open>a - b\<close> on \<^verbatim>\<open>int\<close>.\<close>

definition time_add :: "Time \<Rightarrow> Time \<Rightarrow> Time" where
  "time_add a b = wrap32 (a + b)"

definition time_sub :: "Time \<Rightarrow> Time \<Rightarrow> Time" where
  "time_sub a b = wrap32 (a - b)"

lemma wrap32_range: "INT_MIN \<le> wrap32 x \<and> wrap32 x \<le> INT_MAX"
  using pos_mod_sign [of 4294967296 "x + 2147483648"] pos_mod_bound [of 4294967296 "x + 2147483648"]
  by (simp add: wrap32_def INT_MIN_def INT_MAX_def)

lemma wrap32_id: "INT_MIN \<le> x \<Longrightarrow> x \<le> INT_MAX \<Longrightarrow> wrap32 x = x"
  by (simp add: wrap32_def INT_MIN_def INT_MAX_def)

lemma time_add_exact: "0 \<le> a + b \<Longrightarrow> a + b \<le> INT_MAX \<Longrightarrow> time_add a b = a + b"
  by (simp add: time_add_def wrap32_id INT_MIN_def)

lemma time_sub_exact: "0 \<le> a - b \<Longrightarrow> a - b \<le> INT_MAX \<Longrightarrow> time_sub a b = a - b"
  by (simp add: time_sub_def wrap32_id INT_MIN_def)

subsection \<open>Events\<close>

record ArrivalEvent =
  arrivalTime :: Time
  transactionTime :: Time

record Customer =
  arrivalEvent :: ArrivalEvent

record DepartureEvent =
  departureTime :: Time
  tellerIndex :: TellerIndex

text \<open>\<^verbatim>\<open>std::variant<ArrivalEvent, DepartureEvent>\<close>\<close>

datatype Event = Arrival ArrivalEvent | Departure DepartureEvent

fun get_event_time :: "Event \<Rightarrow> Time" where
  "get_event_time (Arrival a) = arrivalTime a"
| "get_event_time (Departure d) = departureTime d"

definition CompareEvent :: "Event \<Rightarrow> Event \<Rightarrow> bool" where
  "CompareEvent e1 e2 = (get_event_time e1 > get_event_time e2)"

subsection \<open>The event queue: \<^verbatim>\<open>std::priority_queue<Event, vector<Event>, CompareEvent>\<close>\<close>

text \<open>
  The standard defines \<^verbatim>\<open>priority_queue\<close> over its container \<^verbatim>\<open>c\<close>:
  \<^verbatim>\<open>push(x)\<close> is \<^verbatim>\<open>c.push_back(x); push_heap(c.begin(), c.end(), comp)\<close>,
  \<^verbatim>\<open>pop()\<close> is \<^verbatim>\<open>pop_heap(c.begin(), c.end(), comp); c.pop_back()\<close>,
  \<^verbatim>\<open>top()\<close> is \<^verbatim>\<open>c.front()\<close> and \<^verbatim>\<open>empty()\<close> is \<^verbatim>\<open>c.empty()\<close>.
  Which of several events of equal time is popped first is left to the heap algorithms.
  They are modelled here as libstdc++ (\<^verbatim>\<open>bits/stl_heap.h\<close>) implements them, on the vector
  as a list.

  \<^verbatim>\<open>
  __push_heap(first, holeIndex, topIndex, value, comp) {
    parent = (holeIndex - 1) / 2;
    while (holeIndex > topIndex && comp(first + parent, value)) {
      *(first + holeIndex) = move(*(first + parent));
      holeIndex = parent;
      parent = (holeIndex - 1) / 2;
    }
    *(first + holeIndex) = move(value);
  }
  \<close>
\<close>

function push_heap_aux :: "Event list \<Rightarrow> nat \<Rightarrow> nat \<Rightarrow> Event \<Rightarrow> Event list" where
  "push_heap_aux xs holeIndex topIndex v =
     (if holeIndex > topIndex \<and> CompareEvent (xs ! ((holeIndex - 1) div 2)) v
      then push_heap_aux (xs[holeIndex := xs ! ((holeIndex - 1) div 2)])
             ((holeIndex - 1) div 2) topIndex v
      else xs[holeIndex := v])"
  by pat_completeness auto
termination
  by (relation "measure (\<lambda>(xs, holeIndex, topIndex, v). holeIndex)") auto

declare push_heap_aux.simps [simp del]

text \<open>
  \<^verbatim>\<open>
  push_heap(first, last, comp) {
    value = move(*(last - 1));
    __push_heap(first, (last - first) - 1, 0, move(value), comp);
  }
  \<close>
\<close>

definition push_heap :: "Event list \<Rightarrow> Event list" where
  "push_heap xs = push_heap_aux xs (length xs - 1) 0 (xs ! (length xs - 1))"

text \<open>
  \<^verbatim>\<open>
  __adjust_heap(first, holeIndex, len, value, comp) {
    topIndex = holeIndex;
    secondChild = holeIndex;
    while (secondChild < (len - 1) / 2) {
      secondChild = 2 * (secondChild + 1);
      if (comp(first + secondChild, first + (secondChild - 1)))
        secondChild--;
      *(first + holeIndex) = move(*(first + secondChild));
      holeIndex = secondChild;
    }
    if ((len & 1) == 0 && secondChild == (len - 2) / 2) {
      secondChild = 2 * (secondChild + 1);
      *(first + holeIndex) = move(*(first + (secondChild - 1)));
      holeIndex = secondChild - 1;
    }
    __push_heap(first, holeIndex, topIndex, move(value), comp);
  }
  \<close>
  At the head of the loop \<^verbatim>\<open>holeIndex\<close> and \<^verbatim>\<open>secondChild\<close> are equal, so the loop
  carries one index. It returns the vector and that index.
\<close>

function adjust_heap_loop :: "Event list \<Rightarrow> nat \<Rightarrow> nat \<Rightarrow> Event list \<times> nat" where
  "adjust_heap_loop xs secondChild len =
     (if secondChild < (len - 1) div 2
      then (if CompareEvent (xs ! (2 * (secondChild + 1))) (xs ! (2 * (secondChild + 1) - 1))
            then adjust_heap_loop (xs[secondChild := xs ! (2 * (secondChild + 1) - 1)])
                   (2 * (secondChild + 1) - 1) len
            else adjust_heap_loop (xs[secondChild := xs ! (2 * (secondChild + 1))])
                   (2 * (secondChild + 1)) len)
      else (xs, secondChild))"
  by pat_completeness auto
termination
  by (relation "measure (\<lambda>(xs, secondChild, len). len - secondChild)") auto

declare adjust_heap_loop.simps [simp del]

definition adjust_heap :: "Event list \<Rightarrow> nat \<Rightarrow> nat \<Rightarrow> Event \<Rightarrow> Event list" where
  "adjust_heap xs holeIndex len v =
     (case adjust_heap_loop xs holeIndex len of
        (xs1, secondChild) \<Rightarrow>
          if even len \<and> secondChild = (len - 2) div 2
          then push_heap_aux (xs1[secondChild := xs1 ! (2 * (secondChild + 1) - 1)])
                 (2 * (secondChild + 1) - 1) holeIndex v
          else push_heap_aux xs1 secondChild holeIndex v)"

text \<open>
  \<^verbatim>\<open>
  pop_heap(first, last, comp) {
    if (last - first > 1) {
      --last;
      // __pop_heap(first, last, last, comp):
      value = move(*last);
      *last = move(*first);
      __adjust_heap(first, 0, last - first, move(value), comp);
    }
  }
  \<close>
\<close>

definition pop_heap :: "Event list \<Rightarrow> Event list" where
  "pop_heap xs =
     (if length xs > 1
      then adjust_heap (xs[length xs - 1 := xs ! 0]) 0 (length xs - 1) (xs ! (length xs - 1))
      else xs)"

type_synonym EventQueue = "Event list"

definition pq_push :: "Event \<Rightarrow> EventQueue \<Rightarrow> EventQueue" where
  "pq_push e c = push_heap (c @ [e])"

definition pq_pop :: "EventQueue \<Rightarrow> EventQueue" where
  "pq_pop c = butlast (pop_heap c)"

definition pq_top :: "EventQueue \<Rightarrow> Event" where
  "pq_top c = c ! 0"

definition pq_empty :: "EventQueue \<Rightarrow> bool" where
  "pq_empty c = (c = [])"

subsection \<open>The heap algorithms permute the vector\<close>

text \<open>
  Both algorithms move a hole through the vector and write the value into it at the end:
  with the value in the hole, the elements stay the same multiset.
\<close>

lemma length_push_heap_aux [simp]: "length (push_heap_aux xs h t v) = length xs"
  by (induction xs h t v rule: push_heap_aux.induct) (subst push_heap_aux.simps, simp)

lemma mset_swap_hole:
  assumes "h < length xs" "p < length xs" "p \<noteq> h"
  shows "mset ((xs[h := xs ! p])[p := v]) = mset (xs[h := v])"
  using assms by (simp add: mset_update)

lemma mset_push_heap_aux:
  "h < length xs \<Longrightarrow> mset (push_heap_aux xs h t v) = mset (xs[h := v])"
proof (induction xs h t v rule: push_heap_aux.induct)
  case (1 xs h t v)
  show ?case
  proof (cases "h > t \<and> CompareEvent (xs ! ((h - 1) div 2)) v")
    case True
    then have p: "(h - 1) div 2 < h" by auto
    with "1.prems" have pl: "(h - 1) div 2 < length xs" by simp
    have "mset (push_heap_aux xs h t v)
        = mset (push_heap_aux (xs[h := xs ! ((h - 1) div 2)]) ((h - 1) div 2) t v)"
      using True by (subst push_heap_aux.simps) simp
    also have "\<dots> = mset ((xs[h := xs ! ((h - 1) div 2)])[(h - 1) div 2 := v])"
      using "1.IH" True pl by simp
    also have "\<dots> = mset (xs[h := v])"
      using mset_swap_hole [OF "1.prems" pl] p by simp
    finally show ?thesis .
  next
    case False
    then show ?thesis by (subst push_heap_aux.simps) auto
  qed
qed

lemma nth_push_heap_aux: "h < k \<Longrightarrow> push_heap_aux xs h t v ! k = xs ! k"
proof (induction xs h t v rule: push_heap_aux.induct)
  case (1 xs h t v)
  show ?case
  proof (cases "h > t \<and> CompareEvent (xs ! ((h - 1) div 2)) v")
    case True
    then have p: "(h - 1) div 2 < h" by auto
    have "push_heap_aux xs h t v ! k
        = push_heap_aux (xs[h := xs ! ((h - 1) div 2)]) ((h - 1) div 2) t v ! k"
      using True by (subst push_heap_aux.simps) simp
    also have "\<dots> = (xs[h := xs ! ((h - 1) div 2)]) ! k"
      using "1.IH" True p "1.prems" by simp
    finally show ?thesis using "1.prems" by simp
  next
    case False
    then show ?thesis using "1.prems" by (subst push_heap_aux.simps) auto
  qed
qed

lemma adjust_heap_loop_props:
  "adjust_heap_loop xs sc len = (xs1, h) \<Longrightarrow> sc < len \<Longrightarrow> len \<le> length xs \<Longrightarrow>
   length xs1 = length xs \<and> sc \<le> h \<and> h < len \<and> (\<forall>k\<ge>len. xs1 ! k = xs ! k) \<and>
   mset (xs1[h := v]) = mset (xs[sc := v])"
proof (induction xs sc len arbitrary: xs1 h rule: adjust_heap_loop.induct)
  case (1 xs sc len)
  show ?case
  proof (cases "sc < (len - 1) div 2")
    case False
    then show ?thesis using "1.prems" by (subst (asm) adjust_heap_loop.simps) auto
  next
    case lt: True
    then have r: "2 * (sc + 1) < len" by arith
    show ?thesis
    proof (cases "CompareEvent (xs ! (2 * (sc + 1))) (xs ! (2 * (sc + 1) - 1))")
      case True
      let ?c = "2 * (sc + 1) - 1"
      have c: "?c < len" "sc < ?c" "?c < length xs" using r "1.prems" by auto
      from "1.prems"(1) lt True
      have eq: "adjust_heap_loop (xs[sc := xs ! ?c]) ?c len = (xs1, h)"
        by (subst (asm) adjust_heap_loop.simps) simp
      from "1.IH"(1) [OF lt True eq] c "1.prems"
      have ih: "length xs1 = length xs" "?c \<le> h" "h < len"
        "\<forall>k\<ge>len. xs1 ! k = (xs[sc := xs ! ?c]) ! k"
        "mset (xs1[h := v]) = mset ((xs[sc := xs ! ?c])[?c := v])" by auto
      have "mset ((xs[sc := xs ! ?c])[?c := v]) = mset (xs[sc := v])"
        using mset_swap_hole [of sc xs ?c v] c "1.prems" by simp
      with ih c "1.prems" show ?thesis by auto
    next
      case False
      let ?c = "2 * (sc + 1)"
      have c: "?c < len" "sc < ?c" "?c < length xs" using r "1.prems" by auto
      from "1.prems"(1) lt False
      have eq: "adjust_heap_loop (xs[sc := xs ! ?c]) ?c len = (xs1, h)"
        by (subst (asm) adjust_heap_loop.simps) simp
      from "1.IH"(2) [OF lt False eq] c "1.prems"
      have ih: "length xs1 = length xs" "?c \<le> h" "h < len"
        "\<forall>k\<ge>len. xs1 ! k = (xs[sc := xs ! ?c]) ! k"
        "mset (xs1[h := v]) = mset ((xs[sc := xs ! ?c])[?c := v])" by auto
      have "mset ((xs[sc := xs ! ?c])[?c := v]) = mset (xs[sc := v])"
        using mset_swap_hole [of sc xs ?c v] c "1.prems" by simp
      with ih c "1.prems" show ?thesis by auto
    qed
  qed
qed

lemma length_adjust_heap:
  "h < len \<Longrightarrow> len \<le> length xs \<Longrightarrow> length (adjust_heap xs h len v) = length xs"
  using adjust_heap_loop_props [of xs h len _ _ v]
  by (auto simp: adjust_heap_def split: prod.splits)

lemma adjust_heap_mset_nth:
  assumes "h < len" "len \<le> length xs"
  shows "mset (adjust_heap xs h len v) = mset (xs[h := v])"
    and "\<forall>k\<ge>len. adjust_heap xs h len v ! k = xs ! k"
proof -
  obtain xs1 sc where l: "adjust_heap_loop xs h len = (xs1, sc)"
    by (cases "adjust_heap_loop xs h len")
  note p = adjust_heap_loop_props [OF l assms, of v]
  show "mset (adjust_heap xs h len v) = mset (xs[h := v])"
  proof (cases "even len \<and> sc = (len - 2) div 2")
    case True
    let ?c = "2 * (sc + 1) - 1"
    from True assms have "2 \<le> len" by (cases "len = 1") auto
    with True have c: "?c < len" "sc < ?c" by (auto elim!: evenE)
    have "mset (adjust_heap xs h len v) = mset ((xs1[sc := xs1 ! ?c])[?c := v])"
      using True l c p assms by (simp add: adjust_heap_def mset_push_heap_aux)
    also have "\<dots> = mset (xs1[sc := v])"
      using mset_swap_hole [of sc xs1 ?c v] c p assms by simp
    finally show ?thesis using p by simp
  next
    case False
    then show ?thesis using l p assms
      by (auto simp: adjust_heap_def mset_push_heap_aux)
  qed
  show "\<forall>k\<ge>len. adjust_heap xs h len v ! k = xs ! k"
  proof (cases "even len \<and> sc = (len - 2) div 2")
    case True
    let ?c = "2 * (sc + 1) - 1"
    from True assms have "2 \<le> len" by (cases "len = 1") auto
    with True have c: "?c < len" "sc < ?c" by (auto elim!: evenE)
    show ?thesis using True l c p assms 
      by (auto simp: adjust_heap_def nth_push_heap_aux)
  next
    case False
    then show ?thesis using l p assms
      by (auto simp: adjust_heap_def nth_push_heap_aux)
  qed
qed

lemma length_pop_heap [simp]: "length (pop_heap xs) = length xs"
  by (simp add: pop_heap_def length_adjust_heap)

lemma mset_pop_heap: "mset (pop_heap xs) = mset xs"
proof (cases "length xs > 1")
  case True
  let ?n = "length xs - 1"
  have "mset (pop_heap xs) = mset ((xs[?n := xs ! 0])[0 := xs ! ?n])"
    using True by (simp add: pop_heap_def adjust_heap_mset_nth(1))
  also have "\<dots> = mset xs"
    using True mset_swap [of 0 xs ?n] by (cases xs) auto
  finally show ?thesis .
qed (simp add: pop_heap_def)

lemma last_pop_heap: "xs \<noteq> [] \<Longrightarrow> last (pop_heap xs) = xs ! 0"
proof (cases "length xs > 1")
  case True
  let ?n = "length xs - 1"
  have "pop_heap xs \<noteq> []" using True by (metis length_pop_heap list.size(3) not_less_zero)
  then have "last (pop_heap xs) = pop_heap xs ! ?n"
    by (simp add: last_conv_nth)
  also have "\<dots> = (xs[?n := xs ! 0]) ! ?n"
    using True adjust_heap_mset_nth(2) [of 0 ?n "xs[?n := xs ! 0]" "xs ! ?n"]
    by (simp add: pop_heap_def)
  finally show ?thesis using True by simp
next
  case False
  assume "xs \<noteq> []"
  with False have "length xs = 1" by (cases xs) auto
  then show ?thesis by (cases xs) (auto simp: pop_heap_def)
qed

lemma length_pq_push [simp]: "length (pq_push e c) = Suc (length c)"
  by (simp add: pq_push_def push_heap_def)

lemma mset_pq_push [simp]: "mset (pq_push e c) = add_mset e (mset c)"
  by (simp add: pq_push_def push_heap_def mset_push_heap_aux)

lemma length_pq_pop [simp]: "length (pq_pop c) = length c - 1"
  by (simp add: pq_pop_def)

lemma mset_pq_pop: "c \<noteq> [] \<Longrightarrow> mset (pq_pop c) = mset c - {#pq_top c#}"
proof -
  assume ne: "c \<noteq> []"
  then have "pop_heap c \<noteq> []" by (metis length_pop_heap length_0_conv)
  then have "pop_heap c = butlast (pop_heap c) @ [last (pop_heap c)]" by simp
  then have "mset (pop_heap c) = add_mset (c ! 0) (mset (pq_pop c))"
    using ne by (metis last_pop_heap mset.simps(2) mset_append pq_pop_def union_mset_add_mset_right add.right_neutral mset.simps(1))
  then show ?thesis by (simp add: mset_pop_heap pq_top_def)
qed

lemma pq_top_in: "c \<noteq> [] \<Longrightarrow> pq_top c \<in> set c"
  by (simp add: pq_top_def)

subsection \<open>The heap algorithms keep the heap order\<close>

text \<open>
  The first \<open>len\<close> elements are a heap: no element is earlier than its parent, the
  parent of index \<open>i\<close> being index \<open>(i - 1) div 2\<close>.
\<close>

definition heap_upto :: "nat \<Rightarrow> Event list \<Rightarrow> bool" where
  "heap_upto len xs \<longleftrightarrow>
     (\<forall>i. 0 < i \<and> i < len \<longrightarrow> get_event_time (xs ! ((i - 1) div 2)) \<le> get_event_time (xs ! i))"

definition is_heap :: "EventQueue \<Rightarrow> bool" where
  "is_heap q = heap_upto (length q) q"

text \<open>
  The state of \<^verbatim>\<open>__push_heap\<close> at the head of its loop: a heap but for the hole, whose
  children are no earlier than the value and no earlier than the parent of the hole.
\<close>

definition sift_ready :: "nat \<Rightarrow> Event list \<Rightarrow> nat \<Rightarrow> Event \<Rightarrow> bool" where
  "sift_ready len xs h v \<longleftrightarrow>
     (\<forall>i. 0 < i \<and> i < len \<and> i \<noteq> h \<longrightarrow>
        get_event_time (xs ! ((i - 1) div 2)) \<le> get_event_time (xs ! i)) \<and>
     (\<forall>i. 0 < i \<and> i < len \<and> (i - 1) div 2 = h \<longrightarrow>
        get_event_time v \<le> get_event_time (xs ! i) \<and>
        (0 < h \<longrightarrow> get_event_time (xs ! ((h - 1) div 2)) \<le> get_event_time (xs ! i)))"

lemma sift_ready_step:
  assumes r: "sift_ready len xs h v" and h: "0 < h" "h < len" "len \<le> length xs"
    and c: "CompareEvent (xs ! ((h - 1) div 2)) v"
  shows "sift_ready len (xs[h := xs ! ((h - 1) div 2)]) ((h - 1) div 2) v"
proof -
  let ?p = "(h - 1) div 2"
  let ?k = "\<lambda>e. get_event_time e"
  from h have p: "?p < h" by auto
  from c have lt: "?k v < ?k (xs ! ?p)" by (simp add: CompareEvent_def)
  have r1: "?k (xs ! ((i - 1) div 2)) \<le> ?k (xs ! i)" if "0 < i" "i < len" "i \<noteq> h" for i
    using r that by (simp add: sift_ready_def)
  have r2: "?k (xs ! ?p) \<le> ?k (xs ! i)" if "0 < i" "i < len" "(i - 1) div 2 = h" for i
    using r that h by (simp add: sift_ready_def)
  let ?xs = "xs[h := xs ! ?p]"
  have a: "?k (?xs ! ((i - 1) div 2)) \<le> ?k (?xs ! i)" if i: "0 < i" "i < len" "i \<noteq> ?p" for i
  proof (cases "i = h")
    case True
    with p h show ?thesis by simp
  next
    case False
    show ?thesis
    proof (cases "(i - 1) div 2 = h")
      case True
      with False r2 [OF i(1,2) True] h i show ?thesis by simp
    next
      case False
      with \<open>i \<noteq> h\<close> r1 [OF i(1,2)] show ?thesis by simp
    qed
  qed
  have b: "?k v \<le> ?k (?xs ! i) \<and> (0 < ?p \<longrightarrow> ?k (?xs ! ((?p - 1) div 2)) \<le> ?k (?xs ! i))"
    if i: "0 < i" "i < len" "(i - 1) div 2 = ?p" for i
  proof -
    have pp: "0 < ?p \<Longrightarrow> ?k (xs ! ((?p - 1) div 2)) \<le> ?k (xs ! ?p)"
      using r1 [of ?p] p h by simp
    have ppn: "0 < ?p \<Longrightarrow> (?p - 1) div 2 \<noteq> h" using p by auto
    have v: "?k (xs ! ?p) \<le> ?k (?xs ! i)"
    proof (cases "i = h")
      case True
      with h show ?thesis by simp
    next
      case False
      with r1 [OF i(1,2)] i(3) show ?thesis by simp
    qed
    with lt pp ppn show ?thesis by auto
  qed
  from a b show ?thesis unfolding sift_ready_def by blast
qed

lemma sift_ready_done:
  assumes r: "sift_ready len xs h v" and h: "h < len" "len \<le> length xs"
    and c: "\<not> (0 < h \<and> CompareEvent (xs ! ((h - 1) div 2)) v)"
  shows "heap_upto len (xs[h := v])"
  unfolding heap_upto_def
proof (intro allI impI)
  fix i assume i: "0 < i \<and> i < len"
  let ?k = "\<lambda>e. get_event_time e"
  show "?k (xs[h := v] ! ((i - 1) div 2)) \<le> ?k (xs[h := v] ! i)"
  proof (cases "i = h")
    case True
    with i c have "?k (xs ! ((h - 1) div 2)) \<le> ?k v" by (simp add: CompareEvent_def)
    moreover from True i have "(i - 1) div 2 \<noteq> h" by auto
    ultimately show ?thesis using True h by simp
  next
    case False
    show ?thesis
    proof (cases "(i - 1) div 2 = h")
      case True
      with r i have "?k v \<le> ?k (xs ! i)" by (simp add: sift_ready_def)
      with True False h show ?thesis by simp
    next
      case False
      with \<open>i \<noteq> h\<close> r i show ?thesis by (simp add: sift_ready_def)
    qed
  qed
qed

lemma push_heap_aux_heap:
  "sift_ready len xs h v \<Longrightarrow> h < len \<Longrightarrow> len \<le> length xs \<Longrightarrow>
   heap_upto len (push_heap_aux xs h 0 v)"
proof (induction xs h "0::nat" v rule: push_heap_aux.induct)
  case (1 xs h v)
  show ?case
  proof (cases "0 < h \<and> CompareEvent (xs ! ((h - 1) div 2)) v")
    case True
    then have "(h - 1) div 2 < len" using "1.prems" by auto
    with "1.hyps" [OF True sift_ready_step [OF "1.prems"(1) _ "1.prems"(2,3)]] True "1.prems"
    show ?thesis by (subst push_heap_aux.simps) simp
  next
    case False
    with sift_ready_done [OF "1.prems" False] show ?thesis
      by (subst push_heap_aux.simps) auto
  qed
qed

lemma heap_sift_ready_leaf:
  assumes "heap_upto len xs" "len \<le> 2 * h + 1"
  shows "sift_ready len xs h v"
proof -
  have "(i - 1) div 2 \<noteq> h" if "0 < i" "i < len" for i
    using that assms(2) by auto
  with assms(1) show ?thesis by (auto simp: sift_ready_def heap_upto_def)
qed

lemma is_heap_pq_push: "is_heap q \<Longrightarrow> is_heap (pq_push e q)"
proof -
  assume hq: "is_heap q"
  let ?n = "length q"
  have "heap_upto ?n (q @ [e])"
    using hq by (auto simp: is_heap_def heap_upto_def nth_append)
  moreover have "(i - 1) div 2 \<noteq> ?n" if "0 < i" "i < Suc ?n" for i
    using that by auto
  ultimately have "sift_ready (Suc ?n) (q @ [e]) ?n e"
    unfolding sift_ready_def heap_upto_def by (auto simp: less_Suc_eq)
  then have "heap_upto (Suc ?n) (push_heap_aux (q @ [e]) ?n 0 e)"
    by (rule push_heap_aux_heap) simp_all
  then show ?thesis by (simp add: is_heap_def pq_push_def push_heap_def)
qed

text \<open>Moving the earlier child of the hole up into it keeps a heap.\<close>

lemma heap_child_up:
  assumes hp: "heap_upto len xs" and c: "c < len" "len \<le> length xs" "(c - 1) div 2 = h" "0 < c"
    and least: "\<forall>i. 0 < i \<and> i < len \<and> (i - 1) div 2 = h \<longrightarrow>
      get_event_time (xs ! c) \<le> get_event_time (xs ! i)"
  shows "heap_upto len (xs[h := xs ! c])"
  unfolding heap_upto_def
proof (intro allI impI)
  fix i assume i: "0 < i \<and> i < len"
  let ?k = "\<lambda>e. get_event_time e"
  let ?xs = "xs[h := xs ! c]"
  from c have hc: "h < c" by auto
  have hp': "?k (xs ! ((j - 1) div 2)) \<le> ?k (xs ! j)" if "0 < j" "j < len" for j
    using hp that by (simp add: heap_upto_def)
  show "?k (?xs ! ((i - 1) div 2)) \<le> ?k (?xs ! i)"
  proof (cases "i = h")
    case True
    then have ne: "(i - 1) div 2 \<noteq> h" using i by auto
    have "?k (xs ! ((h - 1) div 2)) \<le> ?k (xs ! h)" using hp' [of h] i True by simp
    also have "\<dots> \<le> ?k (xs ! c)" using hp' [of c] c by simp
    finally show ?thesis using True ne hc c by simp
  next
    case False
    show ?thesis
    proof (cases "(i - 1) div 2 = h")
      case True
      with least i have "?k (xs ! c) \<le> ?k (xs ! i)" by simp
      with True False hc c show ?thesis by simp
    next
      case False
      with \<open>i \<noteq> h\<close> hp' [of i] i show ?thesis by simp
    qed
  qed
qed

lemma children:
  fixes i h :: nat
  shows "0 < i \<Longrightarrow> (i - 1) div 2 = h \<Longrightarrow> i = 2 * (h + 1) - 1 \<or> i = 2 * (h + 1)"
  by arith

lemma least_child:
  assumes "get_event_time (xs ! c) \<le> get_event_time (xs ! (2 * (h + 1) - 1))"
    "get_event_time (xs ! c) \<le> get_event_time (xs ! (2 * (h + 1)))"
  shows "\<forall>i. 0 < i \<and> i < len \<and> (i - 1) div 2 = h \<longrightarrow>
    get_event_time (xs ! c) \<le> get_event_time (xs ! i)"
proof (intro allI impI)
  fix i assume "0 < i \<and> i < len \<and> (i - 1) div 2 = h"
  then have "i = 2 * (h + 1) - 1 \<or> i = 2 * (h + 1)" using children [of i h] by simp
  with assms show "get_event_time (xs ! c) \<le> get_event_time (xs ! i)" by auto
qed

lemma adjust_heap_loop_heap:
  "adjust_heap_loop xs sc len = (xs1, h) \<Longrightarrow> heap_upto len xs \<Longrightarrow> sc < len \<Longrightarrow>
   len \<le> length xs \<Longrightarrow> heap_upto len xs1 \<and> \<not> h < (len - 1) div 2"
proof (induction xs sc len arbitrary: xs1 h rule: adjust_heap_loop.induct)
  case (1 xs sc len)
  let ?k = "\<lambda>e. get_event_time e"
  show ?case
  proof (cases "sc < (len - 1) div 2")
    case False
    then show ?thesis using "1.prems" by (subst (asm) adjust_heap_loop.simps) auto
  next
    case lt: True
    then have r: "2 * (sc + 1) < len" by arith
    let ?l = "2 * (sc + 1) - 1" and ?r = "2 * (sc + 1)"
    show ?thesis
    proof (cases "CompareEvent (xs ! ?r) (xs ! ?l)")
      case True
      from "1.prems"(1) lt True
      have eq: "adjust_heap_loop (xs[sc := xs ! ?l]) ?l len = (xs1, h)"
        by (subst (asm) adjust_heap_loop.simps) simp
      have "heap_upto len (xs[sc := xs ! ?l])"
      proof (rule heap_child_up [OF "1.prems"(2)])
        show "\<forall>i. 0 < i \<and> i < len \<and> (i - 1) div 2 = sc \<longrightarrow> ?k (xs ! ?l) \<le> ?k (xs ! i)"
          using True by (intro least_child) (simp_all add: CompareEvent_def)
      qed (use r "1.prems" in auto)
      from "1.IH"(1) [OF lt True eq this] r "1.prems" show ?thesis by simp
    next
      case False
      from "1.prems"(1) lt False
      have eq: "adjust_heap_loop (xs[sc := xs ! ?r]) ?r len = (xs1, h)"
        by (subst (asm) adjust_heap_loop.simps) simp
      have "heap_upto len (xs[sc := xs ! ?r])"
      proof (rule heap_child_up [OF "1.prems"(2)])
        show "\<forall>i. 0 < i \<and> i < len \<and> (i - 1) div 2 = sc \<longrightarrow> ?k (xs ! ?r) \<le> ?k (xs ! i)"
          using False by (intro least_child) (simp_all add: CompareEvent_def)
      qed (use r "1.prems" in auto)
      from "1.IH"(2) [OF lt False eq this] r "1.prems" show ?thesis by simp
    qed
  qed
qed

lemma adjust_heap_heap:
  assumes "heap_upto len xs" "0 < len" "len \<le> length xs"
  shows "heap_upto len (adjust_heap xs 0 len v)"
proof -
  let ?k = "\<lambda>e. get_event_time e"
  obtain xs1 sc where l: "adjust_heap_loop xs 0 len = (xs1, sc)"
    by (cases "adjust_heap_loop xs 0 len")
  note p = adjust_heap_loop_props [OF l assms(2,3), of v]
  note hp = adjust_heap_loop_heap [OF l assms]
  show ?thesis
  proof (cases "even len \<and> sc = (len - 2) div 2")
    case True
    let ?c = "2 * (sc + 1) - 1"
    from True assms have "2 \<le> len" by (cases "len = 1") auto
    with True have c: "?c = len - 1" "?c < len" "0 < ?c" "(?c - 1) div 2 = sc"
      by (auto elim!: evenE)
    have "heap_upto len (xs1[sc := xs1 ! ?c])"
    proof (rule heap_child_up [OF conjunct1 [OF hp]])
      show "\<forall>i. 0 < i \<and> i < len \<and> (i - 1) div 2 = sc \<longrightarrow> ?k (xs1 ! ?c) \<le> ?k (xs1 ! i)"
        using children [of _ sc] c by auto
    qed (use c p assms in auto)
    then have "sift_ready len (xs1[sc := xs1 ! ?c]) ?c v"
      using c by (intro heap_sift_ready_leaf) auto
    then have "heap_upto len (push_heap_aux (xs1[sc := xs1 ! ?c]) ?c 0 v)"
      using c p assms by (intro push_heap_aux_heap) auto
    with True l show ?thesis by (simp add: adjust_heap_def)
  next
    case False
    with hp have "len \<le> 2 * sc + 1" by (cases "even len") (auto elim!: evenE oddE)
    with hp have "sift_ready len xs1 sc v" by (intro heap_sift_ready_leaf) auto
    then have "heap_upto len (push_heap_aux xs1 sc 0 v)"
      using p assms by (intro push_heap_aux_heap) auto
    with False l show ?thesis by (auto simp: adjust_heap_def)
  qed
qed

lemma is_heap_pq_pop: "is_heap q \<Longrightarrow> is_heap (pq_pop q)"
proof (cases "length q > 1")
  case True
  assume hq: "is_heap q"
  let ?n = "length q - 1"
  let ?ys = "q[?n := q ! 0]"
  have "heap_upto ?n ?ys"
    using hq by (auto simp: is_heap_def heap_upto_def)
  then have "heap_upto ?n (adjust_heap ?ys 0 ?n (q ! ?n))"
    using True by (intro adjust_heap_heap) auto
  then have "heap_upto ?n (pop_heap q)" using True by (simp add: pop_heap_def)
  then show ?thesis
    by (auto simp: is_heap_def heap_upto_def pq_pop_def nth_butlast)
next
  case False
  then have "pq_pop q = []" by (cases q) (auto simp: pq_pop_def pop_heap_def)
  then show ?thesis by (simp add: is_heap_def heap_upto_def)
qed

lemma heap_top_least_nth:
  "is_heap q \<Longrightarrow> i < length q \<Longrightarrow> get_event_time (q ! 0) \<le> get_event_time (q ! i)"
proof (induction i rule: less_induct)
  case (less i)
  show ?case
  proof (cases "i = 0")
    case True
    then show ?thesis by simp
  next
    case False
    then have p: "(i - 1) div 2 < i" by auto
    from less.prems False have "get_event_time (q ! ((i - 1) div 2)) \<le> get_event_time (q ! i)"
      by (simp add: is_heap_def heap_upto_def)
    with less.IH [OF p less.prems(1)] p less.prems(2) show ?thesis by simp
  qed
qed

lemma pq_top_least:
  "is_heap q \<Longrightarrow> e \<in> set q \<Longrightarrow> get_event_time (pq_top q) \<le> get_event_time e"
  by (auto simp: in_set_conv_nth pq_top_def heap_top_least_nth)

lemma is_heap_Nil [simp]: "is_heap []"
  by (simp add: is_heap_def heap_upto_def)

subsection \<open>Tellers\<close>

record Teller =
  startBusy :: "Time option"
  elapsedTimeBusy :: Time

text \<open>
  What ends a call other than a return. \<open>InvalidArgument\<close> is \<^verbatim>\<open>std::invalid_argument\<close>
  with its message and \<open>BadOptionalAccess\<close> is what \<^verbatim>\<open>optional::value()\<close> throws on
  \<^verbatim>\<open>nullopt\<close>. \<open>AssertionFailed\<close> is a failed \<^verbatim>\<open>assert\<close>, which aborts the program; the
  assertions are modelled as compiled in (no \<^verbatim>\<open>NDEBUG\<close>). The other two stand for
  undefined behaviour: \<^verbatim>\<open>tellers[i]\<close> with \<open>i\<close> out of range, and dereferencing the
  end iterator that \<^verbatim>\<open>max_element\<close> returns on an empty vector.
\<close>

datatype error =
    InvalidArgument string
  | BadOptionalAccess
  | AssertionFailed
  | IndexOutOfRange
  | EmptyRange

definition new_Teller :: Teller where
  "new_Teller = \<lparr>startBusy = None, elapsedTimeBusy = 0\<rparr>"

definition isAvailable :: "Teller \<Rightarrow> bool" where
  "isAvailable t = (startBusy t = None)"

definition startWork :: "Time \<Rightarrow> Teller \<Rightarrow> Teller" where
  "startWork currentTime t = t\<lparr>startBusy := Some currentTime\<rparr>"

definition stopWork :: "Time \<Rightarrow> Teller \<Rightarrow> error + Teller" where
  "stopWork currentTime t =
     (case startBusy t of
        None \<Rightarrow> Inl BadOptionalAccess
      | Some since \<Rightarrow>
          Inr (t\<lparr>elapsedTimeBusy := time_add (elapsedTimeBusy t) (time_sub currentTime since),
                 startBusy := None\<rparr>))"

definition elapsedTimeWorking :: "Teller \<Rightarrow> Time" where
  "elapsedTimeWorking t = elapsedTimeBusy t"

subsection \<open>Simulation results\<close>

text \<open>
  \<^verbatim>\<open>*max_element(begin, end)\<close>: the first greatest element; on an empty vector the end
  iterator is dereferenced.
\<close>

fun max_element :: "Time list \<Rightarrow> Time \<Rightarrow> Time" where
  "max_element [] largest = largest"
| "max_element (x # xs) largest = max_element xs (if largest < x then x else largest)"

definition results_maxTellerBusyTime :: "Time list \<Rightarrow> error + Time" where
  "results_maxTellerBusyTime elapsed =
     (case elapsed of [] \<Rightarrow> Inl EmptyRange | x # xs \<Rightarrow> Inr (max_element xs x))"

subsection \<open>The simulation object\<close>

definition MIN_TELLERS :: nat where
  "MIN_TELLERS = 1"

definition MAX_TELLERS :: nat where
  "MAX_TELLERS = 5"

record BankSim3000 =
  simulationInput :: "ArrivalEvent list"
  eventQueue :: EventQueue
  bankLine :: "Customer list"
  tellers :: "Teller list"

text \<open>The constructor stores the input; queue, line and tellers start empty.\<close>

definition new_BankSim3000 :: "ArrivalEvent list \<Rightarrow> BankSim3000" where
  "new_BankSim3000 inp =
     \<lparr>simulationInput = inp, eventQueue = [], bankLine = [], tellers = []\<rparr>"

text \<open>
  \<^verbatim>\<open>resetTellers\<close>: \<^verbatim>\<open>reserve\<close> changes capacity only; after \<^verbatim>\<open>clear\<close> the loop
  appends \<open>tellerCount\<close> default-constructed tellers.
\<close>

fun emplace_tellers :: "nat \<Rightarrow> Teller list \<Rightarrow> Teller list" where
  "emplace_tellers 0 ts = ts"
| "emplace_tellers (Suc n) ts = emplace_tellers n (ts @ [new_Teller])"

definition resetTellers :: "nat \<Rightarrow> BankSim3000 \<Rightarrow> BankSim3000" where
  "resetTellers tellerCount s = s\<lparr>tellers := emplace_tellers tellerCount []\<rparr>"

text \<open>\<^verbatim>\<open>while (!bankLine.empty()) bankLine.pop();\<close>\<close>

fun pop_all_line :: "Customer list \<Rightarrow> Customer list" where
  "pop_all_line [] = []"
| "pop_all_line (c # cs) = pop_all_line cs"

definition clearBankLine :: "BankSim3000 \<Rightarrow> (error + unit) \<times> BankSim3000" where
  "clearBankLine s =
     (if bankLine s \<noteq> [] then (Inl AssertionFailed, s)
      else (Inr (), s\<lparr>bankLine := pop_all_line (bankLine s)\<rparr>))"

text \<open>
  \<^verbatim>\<open>setupEventQueue\<close>: the assertion, the loop that pops until the queue is empty, then
  one \<^verbatim>\<open>push\<close> for each arrival of the input, in input order.
\<close>

function pop_all_events :: "EventQueue \<Rightarrow> EventQueue" where
  "pop_all_events q = (if pq_empty q then q else pop_all_events (pq_pop q))"
  by pat_completeness auto
termination
  by (relation "measure length") (auto simp: pq_empty_def)

declare pop_all_events.simps [simp del]

fun push_arrivals :: "ArrivalEvent list \<Rightarrow> EventQueue \<Rightarrow> EventQueue" where
  "push_arrivals [] q = q"
| "push_arrivals (arrival # rest) q = push_arrivals rest (pq_push (Arrival arrival) q)"

definition setupEventQueue :: "BankSim3000 \<Rightarrow> (error + unit) \<times> BankSim3000" where
  "setupEventQueue s =
     (if \<not> pq_empty (eventQueue s) then (Inl AssertionFailed, s)
      else (Inr (), s\<lparr>eventQueue :=
                         push_arrivals (simulationInput s) (pop_all_events (eventQueue s))\<rparr>))"

text \<open>\<^verbatim>\<open>std::to_string\<close> of a \<^verbatim>\<open>size_t\<close>: its decimal digits.\<close>

function to_string :: "nat \<Rightarrow> string" where
  "to_string n =
     (if n < 10 then [char_of (48 + n)] else to_string (n div 10) @ [char_of (48 + n mod 10)])"
  by pat_completeness auto
termination
  by (relation "measure id") auto

declare to_string.simps [simp del]

definition setupSimulation :: "nat \<Rightarrow> BankSim3000 \<Rightarrow> (error + unit) \<times> BankSim3000" where
  "setupSimulation tellerCount s =
     (if tellerCount < MIN_TELLERS
      then (Inl (InvalidArgument (''Teller count must >= '' @ to_string MIN_TELLERS)), s)
      else if tellerCount > MAX_TELLERS
      then (Inl (InvalidArgument (''Teller count must be <= '' @ to_string MAX_TELLERS)), s)
      else (case setupEventQueue s of
              (Inl e, s1) \<Rightarrow> (Inl e, s1)
            | (Inr _, s1) \<Rightarrow> clearBankLine (resetTellers tellerCount s1)))"

text \<open>\<^verbatim>\<open>searchAvailableTellers\<close>: the loop over the indices, from \<open>i\<close> on.\<close>

function search_from :: "nat \<Rightarrow> Teller list \<Rightarrow> nat option" where
  "search_from i ts =
     (if i < length ts
      then (if isAvailable (ts ! i) then Some i else search_from (i + 1) ts)
      else None)"
  by pat_completeness auto
termination
  by (relation "measure (\<lambda>(i, ts). length ts - i)") auto

declare search_from.simps [simp del]

definition searchAvailableTellers :: "BankSim3000 \<Rightarrow> nat option" where
  "searchAvailableTellers s = search_from 0 (tellers s)"

definition processArrival ::
  "Time \<Rightarrow> ArrivalEvent \<Rightarrow> BankSim3000 \<Rightarrow> (error + unit) \<times> BankSim3000" where
  "processArrival currentTime arrival s =
     (case searchAvailableTellers s of
        Some i \<Rightarrow>
          (let s1 = s\<lparr>tellers := (tellers s)[i := startWork currentTime (tellers s ! i)]\<rparr>;
               departure = \<lparr>departureTime = time_add currentTime (transactionTime arrival),
                            tellerIndex = i\<rparr>
           in (Inr (), s1\<lparr>eventQueue := pq_push (Departure departure) (eventQueue s1)\<rparr>))
      | None \<Rightarrow>
          (Inr (), s\<lparr>bankLine := bankLine s @ [\<lparr>arrivalEvent = arrival\<rparr>]\<rparr>))"

text \<open>
  \<^verbatim>\<open>tellers[tellerIndex].stopWork(currentTime)\<close>, with the index of a departure event:
  the vector is not checked by \<^verbatim>\<open>operator[]\<close>, the optional is by \<^verbatim>\<open>value()\<close>.
\<close>

definition tellers_stopWork ::
  "TellerIndex \<Rightarrow> Time \<Rightarrow> BankSim3000 \<Rightarrow> (error + unit) \<times> BankSim3000" where
  "tellers_stopWork i currentTime s =
     (if i \<ge> length (tellers s) then (Inl IndexOutOfRange, s)
      else (case stopWork currentTime (tellers s ! i) of
              Inl e \<Rightarrow> (Inl e, s)
            | Inr t \<Rightarrow> (Inr (), s\<lparr>tellers := (tellers s)[i := t]\<rparr>)))"

definition processDeparture ::
  "Time \<Rightarrow> DepartureEvent \<Rightarrow> BankSim3000 \<Rightarrow> (error + unit) \<times> BankSim3000" where
  "processDeparture currentTime departure s =
     (let i = tellerIndex departure in
      if bankLine s = [] then tellers_stopWork i currentTime s
      else
        (let nextCustomer = hd (bankLine s);
             s1 = s\<lparr>bankLine := tl (bankLine s)\<rparr>
         in case tellers_stopWork i currentTime s1 of
              (Inl e, s2) \<Rightarrow> (Inl e, s2)
            | (Inr _, s2) \<Rightarrow>
                (let s3 = s2\<lparr>tellers := (tellers s2)[i := startWork currentTime (tellers s2 ! i)]\<rparr>;
                     newDeparture =
                       \<lparr>departureTime =
                          time_add currentTime (transactionTime (arrivalEvent nextCustomer)),
                        tellerIndex = i\<rparr>
                 in (Inr (), s3\<lparr>eventQueue := pq_push (Departure newDeparture) (eventQueue s3)\<rparr>))))"

definition processEvent ::
  "Time \<Rightarrow> Event \<Rightarrow> BankSim3000 \<Rightarrow> (error + unit) \<times> BankSim3000" where
  "processEvent currentTime e s =
     (case e of
        Arrival arrival \<Rightarrow> processArrival currentTime arrival s
      | Departure departure \<Rightarrow> processDeparture currentTime departure s)"

text \<open>The body of the loop of \<^verbatim>\<open>runSimulation\<close>: \<^verbatim>\<open>top\<close>, \<^verbatim>\<open>pop\<close>, \<^verbatim>\<open>processEvent\<close>.\<close>

definition runSimulation_body :: "BankSim3000 \<Rightarrow> (error + unit) \<times> BankSim3000" where
  "runSimulation_body s =
     (let e = pq_top (eventQueue s);
          s1 = s\<lparr>eventQueue := pq_pop (eventQueue s)\<rparr>
      in processEvent (get_event_time e) e s1)"

subsection \<open>The loop of \<^verbatim>\<open>runSimulation\<close> ends\<close>

text \<open>
  Every pass of the loop pops one event. An arrival event becomes a departure event or a
  waiting customer, a departure event leaves alone or takes a waiting customer with it
  and puts one departure event back. Weigh an arrival event 2, a departure event 1 and a
  waiting customer 1: each pass that returns makes the weight of queue and line smaller.
\<close>

fun event_weight :: "Event \<Rightarrow> nat" where
  "event_weight (Arrival a) = 2"
| "event_weight (Departure d) = 1"

definition queue_weight :: "EventQueue \<Rightarrow> nat" where
  "queue_weight q = sum_list (map event_weight q)"

definition sim_weight :: "BankSim3000 \<Rightarrow> nat" where
  "sim_weight s = queue_weight (eventQueue s) + length (bankLine s)"

lemma queue_weight_mset: "queue_weight q = sum_mset (image_mset event_weight (mset q))"
  by (simp add: queue_weight_def sum_mset_sum_list [symmetric])

lemma queue_weight_push [simp]: "queue_weight (pq_push e q) = event_weight e + queue_weight q"
  by (simp add: queue_weight_mset)

lemma mset_pq_top_pop: "q \<noteq> [] \<Longrightarrow> mset q = add_mset (pq_top q) (mset (pq_pop q))"
  by (simp add: mset_pq_pop pq_top_in)

lemma queue_weight_pop:
  "q \<noteq> [] \<Longrightarrow> queue_weight (pq_pop q) + event_weight (pq_top q) = queue_weight q"
  by (simp add: queue_weight_mset mset_pq_top_pop [of q])

lemma tellers_stopWork_frame:
  "tellers_stopWork i t s = (r, s') \<Longrightarrow>
   eventQueue s' = eventQueue s \<and> bankLine s' = bankLine s \<and>
   simulationInput s' = simulationInput s \<and> length (tellers s') = length (tellers s)"
  by (auto simp: tellers_stopWork_def split: if_splits sum.splits)

lemma sim_weight_body:
  assumes "\<not> pq_empty (eventQueue s)" "runSimulation_body s = (Inr u, s')"
  shows "sim_weight s' < sim_weight s"
proof -
  let ?q = "eventQueue s"
  from assms(1) have ne: "?q \<noteq> []" by (simp add: pq_empty_def)
  note w = queue_weight_pop [OF ne]
  show ?thesis
  proof (cases "pq_top ?q")
    case (Arrival a)
    with assms(2) w show ?thesis
      by (auto simp: runSimulation_body_def processEvent_def processArrival_def sim_weight_def
          Let_def split: option.splits)
  next
    case (Departure d)
    with assms(2) w show ?thesis
      by (auto simp: runSimulation_body_def processEvent_def processDeparture_def sim_weight_def
          Let_def neq_Nil_conv split: if_splits prod.splits sum.splits
          dest!: tellers_stopWork_frame)
  qed
qed

function runSimulation :: "BankSim3000 \<Rightarrow> (error + unit) \<times> BankSim3000" where
  "runSimulation s =
     (if pq_empty (eventQueue s) then (Inr (), s)
      else (case runSimulation_body s of
              (Inl e, s') \<Rightarrow> (Inl e, s')
            | (Inr _, s') \<Rightarrow> runSimulation s'))"
  by pat_completeness auto
termination
  by (relation "measure sim_weight") (auto simp: sim_weight_body)

declare runSimulation.simps [simp del]

text \<open>
  The same loop, recording at each pass the event on top of the queue and the object as
  it is when that event is popped.
\<close>

function runSimulation_trace :: "BankSim3000 \<Rightarrow> (Event \<times> BankSim3000) list" where
  "runSimulation_trace s =
     (if pq_empty (eventQueue s) then []
      else (pq_top (eventQueue s), s) #
        (case runSimulation_body s of
           (Inl e, s') \<Rightarrow> []
         | (Inr _, s') \<Rightarrow> runSimulation_trace s'))"
  by pat_completeness auto
termination
  by (relation "measure sim_weight") (auto simp: sim_weight_body)

declare runSimulation_trace.simps [simp del]

definition runSimulation_events :: "BankSim3000 \<Rightarrow> Event list" where
  "runSimulation_events s = map fst (runSimulation_trace s)"

definition gatherResults :: "BankSim3000 \<Rightarrow> Time list" where
  "gatherResults s = map elapsedTimeWorking (tellers s)"

definition maxTellerBusyTime :: "nat \<Rightarrow> BankSim3000 \<Rightarrow> (error + Time) \<times> BankSim3000" where
  "maxTellerBusyTime tellerCount s =
     (case setupSimulation tellerCount s of
        (Inl e, s1) \<Rightarrow> (Inl e, s1)
      | (Inr _, s1) \<Rightarrow>
          (case runSimulation s1 of
             (Inl e, s2) \<Rightarrow> (Inl e, s2)
           | (Inr _, s2) \<Rightarrow> (results_maxTellerBusyTime (gatherResults s2), s2)))"

text \<open>The input of \<^verbatim>\<open>main\<close>.\<close>

definition SimulationInput00 :: "ArrivalEvent list" where
  "SimulationInput00 =
     [\<lparr>arrivalTime = 20, transactionTime = 6\<rparr>, \<lparr>arrivalTime = 22, transactionTime = 4\<rparr>,
      \<lparr>arrivalTime = 23, transactionTime = 2\<rparr>, \<lparr>arrivalTime = 30, transactionTime = 3\<rparr>]"

section \<open>Invariants of a run\<close>

subsection \<open>What one pass of the loop does\<close>

lemma search_from_Some:
  "search_from i ts = Some k \<Longrightarrow> i \<le> k \<and> k < length ts \<and> startBusy (ts ! k) = None"
proof (induction i ts rule: search_from.induct)
  case (1 i ts)
  then show ?case
    by (subst (asm) (2) search_from.simps) (auto simp: isAvailable_def split: if_splits)
qed

lemma search_from_None:
  "search_from i ts = None \<Longrightarrow> i \<le> j \<Longrightarrow> j < length ts \<Longrightarrow> startBusy (ts ! j) \<noteq> None"
proof (induction i ts rule: search_from.induct)
  case (1 i ts)
  from "1.prems"(1) have a: "i < length ts \<Longrightarrow> \<not> isAvailable (ts ! i) \<and> search_from (i + 1) ts = None"
    by (subst (asm) search_from.simps) (auto split: if_splits)
  show ?case
  proof (cases "j = i")
    case True
    with a "1.prems" show ?thesis by (simp add: isAvailable_def)
  next
    case False
    with a "1.prems" "1.IH" show ?thesis by auto
  qed
qed

text \<open>The four outcomes of a pass, by the event on top and what it finds.\<close>

definition arrival_served :: "ArrivalEvent \<Rightarrow> nat \<Rightarrow> BankSim3000 \<Rightarrow> BankSim3000" where
  "arrival_served a i s =
     s\<lparr>eventQueue :=
         pq_push (Departure \<lparr>departureTime = time_add (arrivalTime a) (transactionTime a),
                             tellerIndex = i\<rparr>)
           (pq_pop (eventQueue s)),
       tellers := (tellers s)[i := (tellers s ! i)\<lparr>startBusy := Some (arrivalTime a)\<rparr>]\<rparr>"

definition arrival_waits :: "ArrivalEvent \<Rightarrow> BankSim3000 \<Rightarrow> BankSim3000" where
  "arrival_waits a s =
     s\<lparr>eventQueue := pq_pop (eventQueue s),
       bankLine := bankLine s @ [\<lparr>arrivalEvent = a\<rparr>]\<rparr>"

definition departure_idle :: "DepartureEvent \<Rightarrow> Time \<Rightarrow> BankSim3000 \<Rightarrow> BankSim3000" where
  "departure_idle d since s =
     s\<lparr>eventQueue := pq_pop (eventQueue s),
       tellers := (tellers s)[tellerIndex d :=
         (tellers s ! tellerIndex d)
           \<lparr>elapsedTimeBusy :=
              time_add (elapsedTimeBusy (tellers s ! tellerIndex d)) (time_sub (departureTime d) since),
            startBusy := None\<rparr>]\<rparr>"

definition departure_next ::
  "DepartureEvent \<Rightarrow> Time \<Rightarrow> Customer \<Rightarrow> Customer list \<Rightarrow> BankSim3000 \<Rightarrow> BankSim3000" where
  "departure_next d since c cs s =
     s\<lparr>eventQueue :=
         pq_push (Departure \<lparr>departureTime = time_add (departureTime d) (transactionTime (arrivalEvent c)),
                             tellerIndex = tellerIndex d\<rparr>)
           (pq_pop (eventQueue s)),
       bankLine := cs,
       tellers := (tellers s)[tellerIndex d :=
         (tellers s ! tellerIndex d)
           \<lparr>elapsedTimeBusy :=
              time_add (elapsedTimeBusy (tellers s ! tellerIndex d)) (time_sub (departureTime d) since),
            startBusy := Some (departureTime d)\<rparr>]\<rparr>"

lemma body_arrival_served:
  assumes "pq_top (eventQueue s) = Arrival a" "search_from 0 (tellers s) = Some i"
  shows "runSimulation_body s = (Inr (), arrival_served a i s)"
  using assms
  by (simp add: runSimulation_body_def processEvent_def processArrival_def
      searchAvailableTellers_def arrival_served_def startWork_def Let_def)

lemma body_arrival_waits:
  assumes "pq_top (eventQueue s) = Arrival a" "search_from 0 (tellers s) = None"
  shows "runSimulation_body s = (Inr (), arrival_waits a s)"
  using assms
  by (simp add: runSimulation_body_def processEvent_def processArrival_def
      searchAvailableTellers_def arrival_waits_def Let_def)

lemma body_departure_idle:
  assumes "pq_top (eventQueue s) = Departure d" "bankLine s = []"
    "tellerIndex d < length (tellers s)" "startBusy (tellers s ! tellerIndex d) = Some since"
  shows "runSimulation_body s = (Inr (), departure_idle d since s)"
  using assms
  by (simp add: runSimulation_body_def processEvent_def processDeparture_def
      tellers_stopWork_def stopWork_def departure_idle_def Let_def)

lemma body_departure_next:
  assumes "pq_top (eventQueue s) = Departure d" "bankLine s = c # cs"
    "tellerIndex d < length (tellers s)" "startBusy (tellers s ! tellerIndex d) = Some since"
  shows "runSimulation_body s = (Inr (), departure_next d since c cs s)"
  using assms
  by (simp add: runSimulation_body_def processEvent_def processDeparture_def
      tellers_stopWork_def stopWork_def departure_next_def startWork_def Let_def)

text \<open>A departure event whose teller is out of range or idle ends the run.\<close>

lemma body_departure_fails:
  assumes "pq_top (eventQueue s) = Departure d"
    "\<not> (tellerIndex d < length (tellers s) \<and> startBusy (tellers s ! tellerIndex d) \<noteq> None)"
  shows "\<exists>e s'. runSimulation_body s = (Inl e, s')"
  using assms
  by (auto simp: runSimulation_body_def processEvent_def processDeparture_def
      tellers_stopWork_def stopWork_def Let_def split: option.splits)

subsection \<open>Sums over the event queue\<close>

lemma sum_mset_pq_push:
  "(\<Sum>e\<in>#mset (pq_push x q). f e) = f x + (\<Sum>e\<in>#mset q. f e)"
  by simp

lemma sum_mset_pq_pop:
  "q \<noteq> [] \<Longrightarrow> (\<Sum>e\<in>#mset q. f e) = f (pq_top q) + (\<Sum>e\<in>#mset (pq_pop q). f e)"
  by (simp add: mset_pq_top_pop [of q])

lemma set_pq_pop: "q \<noteq> [] \<Longrightarrow> e \<in> set (pq_pop q) \<Longrightarrow> e \<in> set q"
  by (metis mset_pq_top_pop insert_iff set_mset_add_mset_insert set_mset_mset)

lemma set_pq_push [simp]: "set (pq_push x q) = insert x (set q)"
  by (metis mset_pq_push set_mset_add_mset_insert set_mset_mset)

subsection \<open>Busy tellers and pending departures\<close>

text \<open>
  The tellers that are busy are exactly the tellers that have a departure event in the
  queue, and each has one: the teller indices of the departure events, as a multiset, are
  the set of the indices of the busy tellers.
\<close>

fun dep_index :: "Event \<Rightarrow> nat multiset" where
  "dep_index (Arrival a) = {#}"
| "dep_index (Departure d) = {#tellerIndex d#}"

definition dep_indices :: "EventQueue \<Rightarrow> nat multiset" where
  "dep_indices q = (\<Sum>e\<in>#mset q. dep_index e)"

definition busy_set :: "Teller list \<Rightarrow> nat set" where
  "busy_set ts = {i. i < length ts \<and> startBusy (ts ! i) \<noteq> None}"

definition inv_busy :: "BankSim3000 \<Rightarrow> bool" where
  "inv_busy s \<longleftrightarrow> dep_indices (eventQueue s) = mset_set (busy_set (tellers s))"

definition inv_line :: "BankSim3000 \<Rightarrow> bool" where
  "inv_line s \<longleftrightarrow> (bankLine s \<noteq> [] \<longrightarrow> busy_set (tellers s) = {..<length (tellers s)})"

lemma finite_busy_set [simp]: "finite (busy_set ts)"
  by (simp add: busy_set_def)

lemma busy_set_update:
  "i < length ts \<Longrightarrow>
   busy_set (ts[i := t]) =
     (if startBusy t \<noteq> None then insert i (busy_set ts) else busy_set ts - {i})"
  by (auto simp: busy_set_def nth_list_update)

lemma dep_indices_push [simp]: "dep_indices (pq_push x q) = dep_index x + dep_indices q"
  by (simp add: dep_indices_def)

lemma dep_indices_pop:
  "q \<noteq> [] \<Longrightarrow> dep_indices q = dep_index (pq_top q) + dep_indices (pq_pop q)"
  unfolding dep_indices_def by (rule sum_mset_pq_pop)

lemma dep_indices_Nil [simp]: "dep_indices [] = {#}"
  by (simp add: dep_indices_def)

lemma dep_indices_member:
  "Departure d \<in> set q \<Longrightarrow> tellerIndex d \<in># dep_indices q"
proof -
  assume "Departure d \<in> set q"
  then obtain M where "mset q = add_mset (Departure d) M"
    by (metis mset_add set_mset_mset)
  then show ?thesis by (simp add: dep_indices_def)
qed

text \<open>
  The top of the queue, when it is a departure event, names a busy teller, and no other
  departure event in the queue names the same teller.
\<close>

lemma top_departure_busy:
  assumes "inv_busy s" "eventQueue s \<noteq> []" "pq_top (eventQueue s) = Departure d"
  shows "tellerIndex d < length (tellers s)"
    and "startBusy (tellers s ! tellerIndex d) \<noteq> None"
    and "dep_indices (pq_pop (eventQueue s)) = mset_set (busy_set (tellers s) - {tellerIndex d})"
proof -
  let ?B = "busy_set (tellers s)"
  from assms have eq: "mset_set ?B = add_mset (tellerIndex d) (dep_indices (pq_pop (eventQueue s)))"
    using dep_indices_pop [of "eventQueue s"] by (simp add: inv_busy_def)
  then have "tellerIndex d \<in># mset_set ?B" by simp
  then have m: "tellerIndex d \<in> ?B" by (simp add: elem_mset_set)
  then show "tellerIndex d < length (tellers s)" "startBusy (tellers s ! tellerIndex d) \<noteq> None"
    by (simp_all add: busy_set_def)
  from m eq show "dep_indices (pq_pop (eventQueue s)) = mset_set (?B - {tellerIndex d})"
    using mset_set.remove [of ?B "tellerIndex d"] by simp
qed

text \<open>The pass returns, and what it returns, by cases.\<close>

lemma body_cases [consumes 2, case_names served waits idle follows]:
  assumes "inv_busy s" "eventQueue s \<noteq> []"
  obtains
    (served) a i where "pq_top (eventQueue s) = Arrival a" "i < length (tellers s)"
      "startBusy (tellers s ! i) = None" "runSimulation_body s = (Inr (), arrival_served a i s)"
  | (waits) a where "pq_top (eventQueue s) = Arrival a"
      "busy_set (tellers s) = {..<length (tellers s)}"
      "runSimulation_body s = (Inr (), arrival_waits a s)"
  | (idle) d since where "pq_top (eventQueue s) = Departure d" "bankLine s = []"
      "tellerIndex d < length (tellers s)" "startBusy (tellers s ! tellerIndex d) = Some since"
      "runSimulation_body s = (Inr (), departure_idle d since s)"
  | (follows) d since c cs where "pq_top (eventQueue s) = Departure d" "bankLine s = c # cs"
      "tellerIndex d < length (tellers s)" "startBusy (tellers s ! tellerIndex d) = Some since"
      "runSimulation_body s = (Inr (), departure_next d since c cs s)"
proof (cases "pq_top (eventQueue s)")
  case (Arrival a)
  show ?thesis
  proof (cases "search_from 0 (tellers s)")
    case None
    then have "busy_set (tellers s) = {..<length (tellers s)}"
      using search_from_None [of 0 "tellers s"] by (auto simp: busy_set_def)
    with Arrival None show ?thesis using waits body_arrival_waits by blast
  next
    case (Some i)
    with Arrival show ?thesis
      using served search_from_Some [of 0 "tellers s" i] body_arrival_served by blast
  qed
next
  case (Departure d)
  note b = top_departure_busy [OF assms Departure]
  then obtain since where since: "startBusy (tellers s ! tellerIndex d) = Some since" by auto
  show ?thesis
  proof (cases "bankLine s")
    case Nil
    with Departure b since show ?thesis using idle body_departure_idle by blast
  next
    case (Cons c cs)
    with Departure b since show ?thesis using follows body_departure_next by blast
  qed
qed

lemma body_preserves_busy_line:
  assumes "inv_busy s" "inv_line s" "eventQueue s \<noteq> []"
  shows "\<exists>s'. runSimulation_body s = (Inr (), s') \<and> inv_busy s' \<and> inv_line s' \<and>
           length (tellers s') = length (tellers s) \<and> simulationInput s' = simulationInput s"
  using assms(1,3)
proof (cases rule: body_cases)
  case (served a i)
  let ?B = "busy_set (tellers s)"
  from served have ni: "i \<notin> ?B" by (simp add: busy_set_def)
  have q: "dep_indices (pq_pop (eventQueue s)) = mset_set ?B"
    using assms dep_indices_pop [of "eventQueue s"] served by (simp add: inv_busy_def)
  have "inv_busy (arrival_served a i s)"
    using served ni q by (simp add: inv_busy_def arrival_served_def busy_set_update)
  moreover have "bankLine s = []"
    using assms(2) ni served by (auto simp: inv_line_def)
  then have "inv_line (arrival_served a i s)"
    by (simp add: inv_line_def arrival_served_def)
  ultimately show ?thesis using served by (simp add: arrival_served_def)
next
  case (waits a)
  have q: "dep_indices (pq_pop (eventQueue s)) = mset_set (busy_set (tellers s))"
    using assms dep_indices_pop [of "eventQueue s"] waits by (simp add: inv_busy_def)
  then show ?thesis using waits
    by (simp add: inv_busy_def inv_line_def arrival_waits_def)
next
  case (idle d since)
  note b = top_departure_busy [OF assms(1,3) idle(1)]
  show ?thesis using idle b
    by (simp add: inv_busy_def inv_line_def departure_idle_def busy_set_update)
next
  case (follows d since c cs)
  note b = top_departure_busy [OF assms(1,3) follows(1)]
  let ?B = "busy_set (tellers s)"
  from b have m: "tellerIndex d \<in> ?B" by (simp add: busy_set_def)
  have all: "?B = {..<length (tellers s)}" using assms(2) follows by (simp add: inv_line_def)
  have "insert (tellerIndex d) ?B = ?B" using m by auto
  then have "inv_busy (departure_next d since c cs s)"
    using follows b m mset_set.remove [of ?B "tellerIndex d"]
    by (simp add: inv_busy_def departure_next_def busy_set_update)
  moreover have "inv_line (departure_next d since c cs s)"
    using follows b m all \<open>insert (tellerIndex d) ?B = ?B\<close>
    by (simp add: inv_line_def departure_next_def busy_set_update)
  ultimately show ?thesis using follows by (simp add: departure_next_def)
qed

subsection \<open>Invariants of the loop\<close>

lemma runSimulation_empty: "eventQueue s = [] \<Longrightarrow> runSimulation s = (Inr (), s)"
  by (subst runSimulation.simps) (simp add: pq_empty_def)

lemma runSimulation_step:
  "eventQueue s \<noteq> [] \<Longrightarrow> runSimulation_body s = (Inr (), s') \<Longrightarrow>
   runSimulation s = runSimulation s'"
  by (subst runSimulation.simps) (simp add: pq_empty_def)

lemma runSimulation_trace_empty: "eventQueue s = [] \<Longrightarrow> runSimulation_trace s = []"
  by (subst runSimulation_trace.simps) (simp add: pq_empty_def)

lemma runSimulation_trace_step:
  "eventQueue s \<noteq> [] \<Longrightarrow> runSimulation_body s = (Inr (), s') \<Longrightarrow>
   runSimulation_trace s = (pq_top (eventQueue s), s) # runSimulation_trace s'"
  by (subst runSimulation_trace.simps) (simp add: pq_empty_def)

text \<open>
  A property that holds when the loop starts, and that every pass from a state with the
  property returns from and keeps, holds when the loop ends, and the loop ends by
  returning; it also holds of every state of the trace.
\<close>

lemma runSimulation_invariant:
  assumes "I s"
    and step: "\<And>s. I s \<Longrightarrow> eventQueue s \<noteq> [] \<Longrightarrow> \<exists>s'. runSimulation_body s = (Inr (), s') \<and> I s'"
  shows "\<exists>s'. runSimulation s = (Inr (), s') \<and> I s' \<and> eventQueue s' = []"
  using assms(1)
proof (induction s rule: runSimulation.induct)
  case (1 s)
  show ?case
  proof (cases "eventQueue s = []")
    case True
    with "1.prems" show ?thesis by (simp add: runSimulation_empty)
  next
    case False
    with step "1.prems" obtain s' where b: "runSimulation_body s = (Inr (), s')" "I s'"
      by blast
    from False have "\<not> pq_empty (eventQueue s)" by (simp add: pq_empty_def)
    from "1.IH" [OF this b(1) [symmetric] refl b(2)] runSimulation_step [OF False b(1)]
    show ?thesis by simp
  qed
qed

lemma runSimulation_trace_invariant:
  assumes "I s"
    and step: "\<And>s. I s \<Longrightarrow> eventQueue s \<noteq> [] \<Longrightarrow> \<exists>s'. runSimulation_body s = (Inr (), s') \<and> I s'"
    and "(e, st) \<in> set (runSimulation_trace s)"
  shows "I st \<and> eventQueue st \<noteq> [] \<and> e = pq_top (eventQueue st)"
  using assms(1,3)
proof (induction s rule: runSimulation_trace.induct)
  case (1 s)
  show ?case
  proof (cases "eventQueue s = []")
    case True
    with "1.prems" show ?thesis by (simp add: runSimulation_trace_empty)
  next
    case False
    with step "1.prems" obtain s' where b: "runSimulation_body s = (Inr (), s')" "I s'"
      by blast
    from False have ne: "\<not> pq_empty (eventQueue s)" by (simp add: pq_empty_def)
    from "1.prems"(2) runSimulation_trace_step [OF False b(1)]
    consider "(e, st) = (pq_top (eventQueue s), s)" | "(e, st) \<in> set (runSimulation_trace s')"
      by auto
    then show ?thesis
    proof cases
      case 1
      with False "1.prems" show ?thesis by simp
    next
      case 2
      from "1.IH" [OF ne b(1) [symmetric] refl b(2) 2] show ?thesis .
    qed
  qed
qed

text \<open>
  The trace is the trace of the run: each recorded event is the top of the queue of the
  object recorded with it, and the run from that object ends as the whole run does.
\<close>

lemma runSimulation_trace_states:
  "(e, st) \<in> set (runSimulation_trace s) \<Longrightarrow>
   runSimulation st = runSimulation s \<and> eventQueue st \<noteq> [] \<and> e = pq_top (eventQueue st)"
proof (induction s rule: runSimulation_trace.induct)
  case (1 s)
  show ?case
  proof (cases "eventQueue s = []")
    case True
    with "1.prems" show ?thesis by (simp add: runSimulation_trace_empty)
  next
    case False
    then have ne: "\<not> pq_empty (eventQueue s)" by (simp add: pq_empty_def)
    obtain r s' where b: "runSimulation_body s = (r, s')" by (cases "runSimulation_body s")
    show ?thesis
    proof (cases "(e, st) = (pq_top (eventQueue s), s)")
      case True
      with False show ?thesis by simp
    next
      case other: False
      with "1.prems" ne b obtain u where u: "r = Inr u" "(e, st) \<in> set (runSimulation_trace s')"
        by (subst (asm) runSimulation_trace.simps) (auto split: sum.splits)
      from "1.IH" [OF ne b [symmetric] u] runSimulation_step [OF False, of s'] b u(1)
      show ?thesis by simp
    qed
  qed
qed

subsection \<open>The state that \<^verbatim>\<open>setupSimulation\<close> builds\<close>

lemma emplace_tellers_replicate: "emplace_tellers n ts = ts @ replicate n new_Teller"
  by (induction n ts rule: emplace_tellers.induct) (simp_all add: replicate_app_Cons_same)

lemma pop_all_events_Nil [simp]: "pop_all_events [] = []"
  by (subst pop_all_events.simps) (simp add: pq_empty_def)

definition fresh_state :: "nat \<Rightarrow> ArrivalEvent list \<Rightarrow> BankSim3000" where
  "fresh_state n inp =
     \<lparr>simulationInput = inp, eventQueue = push_arrivals inp [], bankLine = [],
      tellers = replicate n new_Teller\<rparr>"

lemma setupSimulation_valid:
  assumes "MIN_TELLERS \<le> n" "n \<le> MAX_TELLERS" "eventQueue s = []" "bankLine s = []"
  shows "setupSimulation n s = (Inr (), fresh_state n (simulationInput s))"
  using assms
  by (simp add: setupSimulation_def setupEventQueue_def clearBankLine_def resetTellers_def
      pq_empty_def emplace_tellers_replicate fresh_state_def)

lemma mset_push_arrivals: "mset (push_arrivals inp q) = mset (map Arrival inp) + mset q"
  by (induction inp q rule: push_arrivals.induct) simp_all

lemma busy_set_fresh [simp]: "busy_set (replicate n new_Teller) = {}"
  by (auto simp: busy_set_def new_Teller_def)

lemma dep_index_Arrival: "(\<Sum>e\<in>#mset (map Arrival inp). dep_index e) = {#}"
  by (induction inp) simp_all

lemma fresh_state_inv: "inv_busy (fresh_state n inp)" "inv_line (fresh_state n inp)"
  by (simp_all add: inv_busy_def inv_line_def fresh_state_def dep_indices_def
      mset_push_arrivals dep_index_Arrival)

subsection \<open>The run returns with queue and line empty\<close>

lemma runSimulation_returns:
  assumes "inv_busy s" "inv_line s"
  shows "\<exists>s'. runSimulation s = (Inr (), s') \<and> eventQueue s' = [] \<and> inv_busy s' \<and> inv_line s' \<and>
           length (tellers s') = length (tellers s) \<and> simulationInput s' = simulationInput s"
proof -
  define I where "I = (\<lambda>s'. inv_busy s' \<and> inv_line s' \<and>
    length (tellers s') = length (tellers s) \<and> simulationInput s' = simulationInput s)"
  have "I s" using assms by (simp add: I_def)
  moreover have "\<exists>s'. runSimulation_body u = (Inr (), s') \<and> I s'"
    if "I u" "eventQueue u \<noteq> []" for u
    using body_preserves_busy_line [of u] that by (auto simp: I_def)
  ultimately have "\<exists>s'. runSimulation s = (Inr (), s') \<and> I s' \<and> eventQueue s' = []"
    by (rule runSimulation_invariant)
  then show ?thesis by (auto simp: I_def)
qed

lemma final_no_busy:
  assumes "inv_busy s" "eventQueue s = []"
  shows "busy_set (tellers s) = {}"
  using assms by (simp add: inv_busy_def mset_set_empty_iff)

lemma final_line_empty:
  assumes "inv_busy s" "inv_line s" "eventQueue s = []" "tellers s \<noteq> []"
  shows "bankLine s = []"
proof (rule ccontr)
  assume "bankLine s \<noteq> []"
  with assms(2) have "busy_set (tellers s) = {..<length (tellers s)}" by (simp add: inv_line_def)
  with final_no_busy [OF assms(1,3)] assms(4) show False by auto
qed

subsection \<open>How many events a run pops\<close>

lemma length_trace_le_weight: "length (runSimulation_trace s) \<le> sim_weight s"
proof (induction s rule: runSimulation_trace.induct)
  case (1 s)
  show ?case
  proof (cases "pq_empty (eventQueue s)")
    case True
    then show ?thesis by (subst runSimulation_trace.simps) simp
  next
    case False
    obtain r s' where b: "runSimulation_body s = (r, s')" by (cases "runSimulation_body s")
    show ?thesis
    proof (cases r)
      case (Inl e)
      from False have "eventQueue s \<noteq> []" by (simp add: pq_empty_def)
      then have "0 < queue_weight (eventQueue s)"
        using queue_weight_pop [of "eventQueue s"] by (cases "pq_top (eventQueue s)") auto
      with False b Inl show ?thesis
        by (subst runSimulation_trace.simps) (simp add: sim_weight_def)
    next
      case (Inr u)
      with b False "1.IH" [OF False b [symmetric] Inr] sim_weight_body [OF False, of u s']
      show ?thesis
        by (subst runSimulation_trace.simps) simp
    qed
  qed
qed

lemma queue_weight_arrivals: "(\<Sum>a\<in>#mset inp. event_weight (Arrival a)) = 2 * length inp"
  by (induction inp) simp_all

lemma sim_weight_fresh: "sim_weight (fresh_state n inp) = 2 * length inp"
  by (simp add: sim_weight_def fresh_state_def queue_weight_mset mset_push_arrivals
      multiset.map_comp comp_def queue_weight_arrivals)

subsection \<open>A call with a teller count in range\<close>

text \<open>
  On an object whose queue and line are empty, setup returns, the run returns with queue
  and line empty and no teller busy, and pool and input are what setup made them. None
  of this looks at a time.
\<close>

lemma valid_run:
  assumes "MIN_TELLERS \<le> n" "n \<le> MAX_TELLERS" "eventQueue s = []" "bankLine s = []"
  shows "\<exists>s2. setupSimulation n s = (Inr (), fresh_state n (simulationInput s)) \<and>
           runSimulation (fresh_state n (simulationInput s)) = (Inr (), s2) \<and>
           eventQueue s2 = [] \<and> bankLine s2 = [] \<and> busy_set (tellers s2) = {} \<and>
           length (tellers s2) = n \<and> simulationInput s2 = simulationInput s"
proof -
  let ?s1 = "fresh_state n (simulationInput s)"
  from runSimulation_returns [OF fresh_state_inv, of n "simulationInput s"]
  obtain s2 where r: "runSimulation ?s1 = (Inr (), s2)" "eventQueue s2 = []" "inv_busy s2"
    "inv_line s2" "length (tellers s2) = length (tellers ?s1)"
    "simulationInput s2 = simulationInput ?s1"
    by blast
  from r(5) assms(1) have n: "length (tellers s2) = n" "tellers s2 \<noteq> []"
    by (auto simp: fresh_state_def MIN_TELLERS_def)
  have l: "bankLine s2 = []" using final_line_empty r n by blast
  have b: "busy_set (tellers s2) = {}" using final_no_busy r by blast
  from setupSimulation_valid [OF assms] r n l b show ?thesis
    by (simp add: fresh_state_def)
qed


subsection \<open>Every time is a value of \<^verbatim>\<open>int\<close>\<close>

text \<open>
  Over an input of values of \<^verbatim>\<open>int\<close> every time in the object, whenever an event is
  popped and when the run ends, is a value of \<^verbatim>\<open>int\<close>: the run copies times and forms
  them by \<open>time_add\<close> and \<open>time_sub\<close> only.
\<close>

definition is_int32 :: "int \<Rightarrow> bool" where
  "is_int32 x \<longleftrightarrow> INT_MIN \<le> x \<and> x \<le> INT_MAX"

definition arrival_int32 :: "ArrivalEvent \<Rightarrow> bool" where
  "arrival_int32 a \<longleftrightarrow> is_int32 (arrivalTime a) \<and> is_int32 (transactionTime a)"

fun event_int32 :: "Event \<Rightarrow> bool" where
  "event_int32 (Arrival a) = arrival_int32 a"
| "event_int32 (Departure d) = is_int32 (departureTime d)"

definition teller_int32 :: "Teller \<Rightarrow> bool" where
  "teller_int32 t \<longleftrightarrow>
     is_int32 (elapsedTimeBusy t) \<and>
     (case startBusy t of None \<Rightarrow> True | Some since \<Rightarrow> is_int32 since)"

definition state_int32 :: "BankSim3000 \<Rightarrow> bool" where
  "state_int32 s \<longleftrightarrow>
     (\<forall>e\<in>set (eventQueue s). event_int32 e) \<and>
     (\<forall>c\<in>set (bankLine s). arrival_int32 (arrivalEvent c)) \<and>
     (\<forall>t\<in>set (tellers s). teller_int32 t)"

lemma is_int32_time_add [simp]: "is_int32 (time_add a b)"
  using wrap32_range [of "a + b"] by (simp add: is_int32_def time_add_def)

lemma teller_int32_update:
  assumes "\<forall>t\<in>set ts. teller_int32 t" "teller_int32 t'"
  shows "\<forall>t\<in>set (ts[i := t']). teller_int32 t"
  using assms set_update_subset_insert [of ts i t'] by auto

lemma body_preserves_int32:
  assumes b: "inv_busy s" and i: "state_int32 s" and ne: "eventQueue s \<noteq> []"
  shows "\<exists>s'. runSimulation_body s = (Inr (), s') \<and> state_int32 s'"
proof -
  let ?q = "eventQueue s"
  have top: "event_int32 (pq_top ?q)" using i pq_top_in [OF ne] by (simp add: state_int32_def)
  have rest: "\<forall>e\<in>set (pq_pop ?q). event_int32 e"
    using i set_pq_pop [OF ne] by (auto simp: state_int32_def)
  from i have line: "\<forall>c\<in>set (bankLine s). arrival_int32 (arrivalEvent c)"
    and ts: "\<forall>t\<in>set (tellers s). teller_int32 t"
    by (simp_all add: state_int32_def)
  from b ne show ?thesis
  proof (cases rule: body_cases)
    case (served a i)
    let ?t = "(tellers s ! i)\<lparr>startBusy := Some (arrivalTime a)\<rparr>"
    from served ts top have "teller_int32 ?t"
      by (simp add: teller_int32_def arrival_int32_def)
    with ts have "\<forall>t\<in>set ((tellers s)[i := ?t]). teller_int32 t" by (rule teller_int32_update)
    with rest line have "state_int32 (arrival_served a i s)"
      by (simp add: state_int32_def arrival_served_def)
    with served show ?thesis by simp
  next
    case (waits a)
    with top rest line ts have "state_int32 (arrival_waits a s)"
      by (simp add: state_int32_def arrival_waits_def)
    with waits show ?thesis by simp
  next
    case (idle d since)
    let ?t = "(tellers s ! tellerIndex d)\<lparr>elapsedTimeBusy :=
        time_add (elapsedTimeBusy (tellers s ! tellerIndex d)) (time_sub (departureTime d) since),
        startBusy := None\<rparr>"
    have "teller_int32 ?t" by (simp add: teller_int32_def)
    with ts have "\<forall>t\<in>set ((tellers s)[tellerIndex d := ?t]). teller_int32 t"
      by (rule teller_int32_update)
    with rest line have "state_int32 (departure_idle d since s)"
      by (simp add: state_int32_def departure_idle_def)
    with idle show ?thesis by simp
  next
    case (follows d since c cs)
    let ?t = "(tellers s ! tellerIndex d)\<lparr>elapsedTimeBusy :=
        time_add (elapsedTimeBusy (tellers s ! tellerIndex d)) (time_sub (departureTime d) since),
        startBusy := Some (departureTime d)\<rparr>"
    from follows top have "teller_int32 ?t" by (simp add: teller_int32_def)
    with ts have "\<forall>t\<in>set ((tellers s)[tellerIndex d := ?t]). teller_int32 t"
      by (rule teller_int32_update)
    with rest line follows have "state_int32 (departure_next d since c cs s)"
      by (simp add: state_int32_def departure_next_def)
    with follows show ?thesis by simp
  qed
qed

lemma run_int32:
  assumes "\<forall>a\<in>set inp. arrival_int32 a"
  shows "\<forall>(e, st)\<in>set (runSimulation_trace (fresh_state n inp)). state_int32 st"
    and "state_int32 (snd (runSimulation (fresh_state n inp)))"
proof -
  let ?s = "fresh_state n inp"
  define I where "I = (\<lambda>s'. inv_busy s' \<and> inv_line s' \<and> state_int32 s')"
  have "set (eventQueue ?s) = Arrival ` set inp"
    by (metis mset_push_arrivals add.right_neutral mset.simps(1) set_mset_mset set_map
        fresh_state_def BankSim3000.select_convs(2))
  with assms have "state_int32 ?s"
    by (auto simp: state_int32_def teller_int32_def is_int32_def INT_MIN_def INT_MAX_def)
      (auto simp: fresh_state_def new_Teller_def)
  with fresh_state_inv have i: "I ?s" by (simp add: I_def)
  have step: "\<exists>s'. runSimulation_body u = (Inr (), s') \<and> I s'"
    if "I u" "eventQueue u \<noteq> []" for u
    using body_preserves_busy_line [of u] body_preserves_int32 [of u] that by (auto simp: I_def)
  from i step have "\<exists>s'. runSimulation ?s = (Inr (), s') \<and> I s' \<and> eventQueue s' = []"
    by (rule runSimulation_invariant)
  then show "state_int32 (snd (runSimulation ?s))" by (auto simp: I_def)
  have "I st" if "(e, st) \<in> set (runSimulation_trace ?s)" for e st
    using runSimulation_trace_invariant [of I, OF i step that] by simp
  then show "\<forall>(e, st)\<in>set (runSimulation_trace ?s). state_int32 st" by (auto simp: I_def)
qed

subsection \<open>The greatest busy time\<close>





text \<open>A call with a valid teller count on an object whose queue and line are empty.\<close>

lemma maxTellerBusyTime_valid:
  assumes "MIN_TELLERS \<le> n" "n \<le> MAX_TELLERS" "eventQueue s = []" "bankLine s = []"
  shows "\<exists>s2. maxTellerBusyTime n s = (results_maxTellerBusyTime (gatherResults s2), s2) \<and>
           runSimulation (fresh_state n (simulationInput s)) = (Inr (), s2) \<and>
           eventQueue s2 = [] \<and> bankLine s2 = [] \<and> busy_set (tellers s2) = {} \<and>
           length (gatherResults s2) = n \<and> simulationInput s2 = simulationInput s"
proof -
  from valid_run [OF assms] obtain s2 where
    r: "setupSimulation n s = (Inr (), fresh_state n (simulationInput s))"
      "runSimulation (fresh_state n (simulationInput s)) = (Inr (), s2)"
      "eventQueue s2 = []" "bankLine s2 = []" "busy_set (tellers s2) = {}"
      "length (tellers s2) = n" "simulationInput s2 = simulationInput s"
    by blast
  then show ?thesis by (simp add: maxTellerBusyTime_def gatherResults_def)
qed

lemma maxTellerBusyTime_invalid:
  assumes "n < MIN_TELLERS \<or> MAX_TELLERS < n"
  shows "\<exists>msg. setupSimulation n s = (Inl (InvalidArgument msg), s) \<and>
           maxTellerBusyTime n s = (Inl (InvalidArgument msg), s)"
  using assms by (auto simp: maxTellerBusyTime_def setupSimulation_def)

text \<open>
  The objects a program can have: the constructor builds one, and \<^verbatim>\<open>maxTellerBusyTime\<close>,
  the only public member function, leaves one behind. Their queue and line are empty, so
  the assertions of \<^verbatim>\<open>setupEventQueue\<close> and \<^verbatim>\<open>clearBankLine\<close> hold at every call.
\<close>

inductive reachable :: "BankSim3000 \<Rightarrow> bool" where
  constructed: "reachable (new_BankSim3000 inp)"
| called: "reachable s \<Longrightarrow> reachable (snd (maxTellerBusyTime n s))"

lemma reachable_idle: "reachable s \<Longrightarrow> eventQueue s = [] \<and> bankLine s = []"
proof (induction rule: reachable.induct)
  case (constructed inp)
  show ?case by (simp add: new_BankSim3000_def)
next
  case (called s n)
  show ?case
  proof (cases "MIN_TELLERS \<le> n \<and> n \<le> MAX_TELLERS")
    case True
    with maxTellerBusyTime_valid [of n s] called.IH show ?thesis by auto
  next
    case False
    with maxTellerBusyTime_invalid [of n s] called.IH show ?thesis by auto
  qed
qed

lemma to_string_bounds: "to_string MIN_TELLERS = ''1''" "to_string MAX_TELLERS = ''5''"
  by code_simp+

section \<open>Runs in which no time overflows\<close>

subsection \<open>Times\<close>

text \<open>
  With transaction times that are not negative, and while no sum overflows, no departure
  event is due before its teller started, and no teller's busy time is negative.
\<close>

fun event_timely :: "Teller list \<Rightarrow> Event \<Rightarrow> bool" where
  "event_timely ts (Arrival a) = (0 \<le> transactionTime a)"
| "event_timely ts (Departure d) =
     (case startBusy (ts ! tellerIndex d) of None \<Rightarrow> True | Some since \<Rightarrow> since \<le> departureTime d)"

definition inv_time :: "BankSim3000 \<Rightarrow> bool" where
  "inv_time s \<longleftrightarrow>
     (\<forall>e\<in>set (eventQueue s). event_timely (tellers s) e) \<and>
     (\<forall>c\<in>set (bankLine s). 0 \<le> transactionTime (arrivalEvent c)) \<and>
     (\<forall>t\<in>set (tellers s). 0 \<le> elapsedTimeBusy t)"

lemma event_timely_update:
  assumes "event_timely ts e" "e \<in> set q" "dep_indices q = mset_set A" "finite A" "i \<notin> A"
  shows "event_timely (ts[i := t]) e"
proof (cases e)
  case (Arrival a)
  with assms(1) show ?thesis by simp
next
  case (Departure d)
  with assms(2) have "tellerIndex d \<in># dep_indices q" by (simp add: dep_indices_member)
  with assms(3,4) have "tellerIndex d \<in> A" by (simp add: elem_mset_set)
  with assms(5) have "tellerIndex d \<noteq> i" by auto
  with assms(1) Departure show ?thesis by simp
qed

lemma elapsed_update:
  assumes "\<forall>t\<in>set ts. 0 \<le> elapsedTimeBusy t" "0 \<le> elapsedTimeBusy t'"
  shows "\<forall>t\<in>set (ts[i := t']). 0 \<le> elapsedTimeBusy t"
  using assms set_update_subset_insert [of ts i t'] by auto

lemma fresh_state_time:
  assumes "\<forall>a\<in>set inp. 0 \<le> transactionTime a"
  shows "inv_time (fresh_state n inp)"
proof -
  have "set (push_arrivals inp []) = Arrival ` set inp"
    by (metis mset_push_arrivals add.right_neutral mset.simps(1) set_mset_mset set_map)
  with assms show ?thesis
    by (auto simp: inv_time_def fresh_state_def new_Teller_def)
qed


subsection \<open>Work is neither lost nor made\<close>

text \<open>
  The work in the system: the time each teller has worked, less the start time of its
  current customer if it has one; the departure time of every departure event in the
  queue; and the transaction time of every customer still to be served, in the queue or
  in the line. A pass of the loop in which nothing overflows leaves the sum as it is.
\<close>

definition teller_credit :: "Teller \<Rightarrow> Time" where
  "teller_credit t = elapsedTimeBusy t - (case startBusy t of None \<Rightarrow> 0 | Some since \<Rightarrow> since)"

fun event_work :: "Event \<Rightarrow> Time" where
  "event_work (Arrival a) = transactionTime a"
| "event_work (Departure d) = departureTime d"

definition work :: "BankSim3000 \<Rightarrow> Time" where
  "work s = sum_list (map teller_credit (tellers s)) + (\<Sum>e\<in>#mset (eventQueue s). event_work e)
     + sum_list (map (\<lambda>c. transactionTime (arrivalEvent c)) (bankLine s))"

lemma sum_list_map_update:
  fixes f :: "'a \<Rightarrow> int"
  shows "i < length ts \<Longrightarrow> sum_list (map f (ts[i := t])) = sum_list (map f ts) - f (ts ! i) + f t"
proof (induction ts arbitrary: i)
  case Nil
  then show ?case by simp
next
  case (Cons x ts)
  then show ?case by (cases i) auto
qed

lemma work_arrivals: "(\<Sum>a\<in>#mset inp. event_work (Arrival a)) = sum_list (map transactionTime inp)"
  by (induction inp) simp_all

lemma sum_list_replicate_0: "sum_list (replicate n (0::int)) = 0"
  by (induction n) simp_all

lemma work_fresh: "work (fresh_state n inp) = sum_list (map transactionTime inp)"
  using work_arrivals [of inp]
  by (simp add: work_def fresh_state_def mset_push_arrivals multiset.map_comp comp_def
      teller_credit_def new_Teller_def sum_list_replicate_0)


subsection \<open>The range of the times\<close>

text \<open>
  When no arrival time is above \<open>A\<close> and the transaction times add up to \<open>T\<close>, none
  negative, every time a run stores lies between 0 and \<open>A + T\<close>: a departure is due no
  later than \<open>A + T\<close> less the transaction times still to be served. With \<open>A + T\<close> at
  most \<open>INT_MAX\<close> no sum or difference that the program forms overflows.
\<close>

fun remaining :: "Event \<Rightarrow> Time" where
  "remaining (Arrival a) = transactionTime a"
| "remaining (Departure d) = 0"

definition unserved :: "BankSim3000 \<Rightarrow> Time" where
  "unserved s = (\<Sum>e\<in>#mset (eventQueue s). remaining e)
     + sum_list (map (\<lambda>c. transactionTime (arrivalEvent c)) (bankLine s))"

fun event_in_range :: "Time \<Rightarrow> Time \<Rightarrow> Event \<Rightarrow> bool" where
  "event_in_range A B (Arrival a) = (0 \<le> arrivalTime a \<and> arrivalTime a \<le> A)"
| "event_in_range A B (Departure d) = (departureTime d \<le> B)"

definition teller_in_range :: "Time \<Rightarrow> Teller \<Rightarrow> bool" where
  "teller_in_range B t \<longleftrightarrow>
     elapsedTimeBusy t \<le> B \<and>
     (case startBusy t of None \<Rightarrow> True
      | Some since \<Rightarrow> 0 \<le> since \<and> since \<le> B \<and> elapsedTimeBusy t \<le> since)"

definition inv_range :: "Time \<Rightarrow> Time \<Rightarrow> BankSim3000 \<Rightarrow> bool" where
  "inv_range A T s \<longleftrightarrow>
     unserved s \<le> T \<and>
     (\<forall>e\<in>set (eventQueue s). event_in_range A (A + T - unserved s) e) \<and>
     (\<forall>t\<in>set (tellers s). teller_in_range (A + T) t \<and>
        (startBusy t = None \<longrightarrow> (\<forall>e\<in>set (eventQueue s). elapsedTimeBusy t \<le> get_event_time e)))"

lemma unserved_nonneg: "inv_time s \<Longrightarrow> 0 \<le> unserved s"
proof -
  assume t: "inv_time s"
  have "0 \<le> remaining e" if "e \<in> set (eventQueue s)" for e
    using t that by (cases e) (auto simp: inv_time_def)
  then have "0 \<le> sum_list (map remaining (eventQueue s))"
    by (intro sum_list_nonneg) auto
  then have "0 \<le> (\<Sum>e\<in>#mset (eventQueue s). remaining e)"
    by (metis mset_map sum_mset_sum_list)
  moreover have "0 \<le> sum_list (map (\<lambda>c. transactionTime (arrivalEvent c)) (bankLine s))"
    using t by (intro sum_list_nonneg) (auto simp: inv_time_def)
  ultimately show ?thesis by (simp add: unserved_def)
qed

lemma event_in_range_mono: "event_in_range A B e \<Longrightarrow> B \<le> B' \<Longrightarrow> event_in_range A B' e"
  by (cases e) auto

lemma tellers_update_range:
  assumes "\<forall>t\<in>set ts. P t" "P t'"
  shows "\<forall>t\<in>set (ts[i := t']). P t"
  using assms set_update_subset_insert [of ts i t'] by auto

lemma unserved_parts:
  assumes t: "inv_time s" and ne: "eventQueue s \<noteq> []"
  shows "remaining (pq_top (eventQueue s)) \<le> unserved s"
    and "bankLine s = c # cs \<Longrightarrow> transactionTime (arrivalEvent c) \<le> unserved s"
proof -
  let ?q = "eventQueue s"
  let ?x = "\<lambda>c. transactionTime (arrivalEvent c)"
  have nn: "0 \<le> remaining e" if "e \<in> set ?q" for e
    using t that by (cases e) (auto simp: inv_time_def)
  have "0 \<le> sum_list (map remaining (pq_pop ?q))"
    using nn set_pq_pop [OF ne] by (intro sum_list_nonneg) auto
  then have rest: "0 \<le> (\<Sum>e\<in>#mset (pq_pop ?q). remaining e)"
    by (metis mset_map sum_mset_sum_list)
  have line: "0 \<le> sum_list (map ?x (bankLine s))"
    using t by (intro sum_list_nonneg) (auto simp: inv_time_def)
  have u: "unserved s = remaining (pq_top ?q) + (\<Sum>e\<in>#mset (pq_pop ?q). remaining e)
     + sum_list (map ?x (bankLine s))"
    using sum_mset_pq_pop [OF ne, of remaining] by (simp add: unserved_def)
  from u rest line show "remaining (pq_top ?q) \<le> unserved s" by simp
  assume l: "bankLine s = c # cs"
  have "0 \<le> sum_list (map ?x cs)"
    using t l by (intro sum_list_nonneg) (auto simp: inv_time_def)
  moreover have "0 \<le> remaining (pq_top ?q)" using nn pq_top_in [OF ne] by simp
  ultimately show "?x c \<le> unserved s" using u rest l by simp
qed

text \<open>The three sums and the difference that a pass forms, when nothing overflows.\<close>

lemma arrival_exact:
  assumes t: "inv_time s" and r: "inv_range A T s" and bound: "A + T \<le> INT_MAX"
    and ne: "eventQueue s \<noteq> []" and top: "pq_top (eventQueue s) = Arrival a"
  shows "time_add (arrivalTime a) (transactionTime a) = arrivalTime a + transactionTime a"
proof -
  have top_in: "Arrival a \<in> set (eventQueue s)" using pq_top_in [OF ne] top by simp
  with t have x: "0 \<le> transactionTime a" by (auto simp: inv_time_def)
  from r top_in have c: "0 \<le> arrivalTime a" "arrivalTime a \<le> A" by (auto simp: inv_range_def)
  from unserved_parts(1) [OF t ne] top r have "transactionTime a \<le> T"
    by (simp add: inv_range_def)
  with x c bound show ?thesis by (intro time_add_exact) auto
qed

lemma departure_exact:
  assumes t: "inv_time s" and r: "inv_range A T s" and bound: "A + T \<le> INT_MAX"
    and ne: "eventQueue s \<noteq> []" and top: "pq_top (eventQueue s) = Departure d"
    and i: "tellerIndex d < length (tellers s)"
      "startBusy (tellers s ! tellerIndex d) = Some since"
  shows "time_sub (departureTime d) since = departureTime d - since"
    and "time_add (elapsedTimeBusy (tellers s ! tellerIndex d)) (departureTime d - since) =
           elapsedTimeBusy (tellers s ! tellerIndex d) + (departureTime d - since)"
    and "0 \<le> departureTime d"
    and "bankLine s = c # cs \<Longrightarrow>
           time_add (departureTime d) (transactionTime (arrivalEvent c)) =
             departureTime d + transactionTime (arrivalEvent c)"
proof -
  let ?t = "tellers s ! tellerIndex d"
  have top_in: "Departure d \<in> set (eventQueue s)" using pq_top_in [OF ne] top by simp
  have u0: "0 \<le> unserved s" using t by (rule unserved_nonneg)
  from r top_in have du: "departureTime d \<le> A + T - unserved s" by (auto simp: inv_range_def)
  from i have ti: "?t \<in> set (tellers s)" by simp
  with r have "teller_in_range (A + T) ?t" by (simp add: inv_range_def)
  with i have el': "0 \<le> since" "elapsedTimeBusy ?t \<le> since"
    by (simp_all add: teller_in_range_def)
  from t ti have "0 \<le> elapsedTimeBusy ?t" by (simp add: inv_time_def)
  note el = el' this
  from t top_in i have sd: "since \<le> departureTime d" by (auto simp: inv_time_def)
  from du u0 bound sd el show "time_sub (departureTime d) since = departureTime d - since"
    by (intro time_sub_exact) auto
  from du u0 bound sd el
  show "time_add (elapsedTimeBusy ?t) (departureTime d - since) =
           elapsedTimeBusy ?t + (departureTime d - since)"
    by (intro time_add_exact) auto
  from sd el show "0 \<le> departureTime d" by simp
  assume l: "bankLine s = c # cs"
  with t have x: "0 \<le> transactionTime (arrivalEvent c)" by (simp add: inv_time_def)
  from unserved_parts(2) [OF t ne l] du bound sd el x
  show "time_add (departureTime d) (transactionTime (arrivalEvent c)) =
             departureTime d + transactionTime (arrivalEvent c)"
    by (intro time_add_exact) auto
qed

text \<open>What a pass does then: the outcomes of \<open>body_cases\<close> with plain sums.\<close>

definition arrival_served_exact :: "ArrivalEvent \<Rightarrow> nat \<Rightarrow> BankSim3000 \<Rightarrow> BankSim3000" where
  "arrival_served_exact a i s =
     s\<lparr>eventQueue :=
         pq_push (Departure \<lparr>departureTime = arrivalTime a + transactionTime a, tellerIndex = i\<rparr>)
           (pq_pop (eventQueue s)),
       tellers := (tellers s)[i := (tellers s ! i)\<lparr>startBusy := Some (arrivalTime a)\<rparr>]\<rparr>"

definition departure_idle_exact :: "DepartureEvent \<Rightarrow> Time \<Rightarrow> BankSim3000 \<Rightarrow> BankSim3000" where
  "departure_idle_exact d since s =
     s\<lparr>eventQueue := pq_pop (eventQueue s),
       tellers := (tellers s)[tellerIndex d :=
         (tellers s ! tellerIndex d)
           \<lparr>elapsedTimeBusy :=
              elapsedTimeBusy (tellers s ! tellerIndex d) + (departureTime d - since),
            startBusy := None\<rparr>]\<rparr>"

definition departure_next_exact ::
  "DepartureEvent \<Rightarrow> Time \<Rightarrow> Customer \<Rightarrow> Customer list \<Rightarrow> BankSim3000 \<Rightarrow> BankSim3000" where
  "departure_next_exact d since c cs s =
     s\<lparr>eventQueue :=
         pq_push (Departure \<lparr>departureTime = departureTime d + transactionTime (arrivalEvent c),
                             tellerIndex = tellerIndex d\<rparr>)
           (pq_pop (eventQueue s)),
       bankLine := cs,
       tellers := (tellers s)[tellerIndex d :=
         (tellers s ! tellerIndex d)
           \<lparr>elapsedTimeBusy :=
              elapsedTimeBusy (tellers s ! tellerIndex d) + (departureTime d - since),
            startBusy := Some (departureTime d)\<rparr>]\<rparr>"

lemma body_cases_exact [consumes 5, case_names served waits idle follows]:
  assumes "inv_busy s" "inv_time s" "inv_range A T s" "A + T \<le> INT_MAX" "eventQueue s \<noteq> []"
  obtains
    (served) a i where "pq_top (eventQueue s) = Arrival a" "i < length (tellers s)"
      "startBusy (tellers s ! i) = None"
      "runSimulation_body s = (Inr (), arrival_served_exact a i s)"
  | (waits) a where "pq_top (eventQueue s) = Arrival a"
      "busy_set (tellers s) = {..<length (tellers s)}"
      "runSimulation_body s = (Inr (), arrival_waits a s)"
  | (idle) d since where "pq_top (eventQueue s) = Departure d" "bankLine s = []"
      "tellerIndex d < length (tellers s)" "startBusy (tellers s ! tellerIndex d) = Some since"
      "runSimulation_body s = (Inr (), departure_idle_exact d since s)"
  | (follows) d since c cs where "pq_top (eventQueue s) = Departure d" "bankLine s = c # cs"
      "tellerIndex d < length (tellers s)" "startBusy (tellers s ! tellerIndex d) = Some since"
      "runSimulation_body s = (Inr (), departure_next_exact d since c cs s)"
  using assms(1,5)
proof (cases rule: body_cases)
  case (served a i)
  have "arrival_served a i s = arrival_served_exact a i s"
    using arrival_exact [OF assms(2-5) served(1)]
    by (simp add: arrival_served_def arrival_served_exact_def)
  with served show ?thesis using that(1) by simp
next
  case (waits a)
  then show ?thesis using that(2) by simp
next
  case (idle d since)
  have "departure_idle d since s = departure_idle_exact d since s"
    using departure_exact(1,2) [OF assms(2-5) idle(1,3,4)]
    by (simp add: departure_idle_def departure_idle_exact_def)
  with idle show ?thesis using that(3) by simp
next
  case (follows d since c cs)
  have "departure_next d since c cs s = departure_next_exact d since c cs s"
    using departure_exact(1,2) [OF assms(2-5) follows(1,3,4)]
      departure_exact(4) [OF assms(2-5) follows(1,3,4,2)]
    by (simp add: departure_next_def departure_next_exact_def)
  with follows show ?thesis using that(4) by simp
qed

lemma body_preserves_time:
  assumes "inv_busy s" "inv_time s" "eventQueue s \<noteq> []"
    and r: "inv_range A T s" and bound: "A + T \<le> INT_MAX"
  shows "\<exists>s'. runSimulation_body s = (Inr (), s') \<and> inv_time s'"
  using assms(1,2) r bound assms(3)
proof (cases rule: body_cases_exact)
  case (served a i)
  let ?B = "busy_set (tellers s)"
  let ?t = "(tellers s ! i)\<lparr>startBusy := Some (arrivalTime a)\<rparr>"
  from served have ni: "i \<notin> ?B" by (simp add: busy_set_def)
  have q: "dep_indices (pq_pop (eventQueue s)) = mset_set ?B"
    using assms dep_indices_pop [of "eventQueue s"] served by (simp add: inv_busy_def)
  have top: "0 \<le> transactionTime a"
    using assms(2,3) served(1) pq_top_in [of "eventQueue s"] by (auto simp: inv_time_def)
  have "event_timely ((tellers s)[i := ?t]) e" if "e \<in> set (pq_pop (eventQueue s))" for e
    using event_timely_update [OF _ that q _ ni] that assms(2,3) set_pq_pop
    by (auto simp: inv_time_def)
  moreover have "\<forall>t\<in>set ((tellers s)[i := ?t]). 0 \<le> elapsedTimeBusy t"
    using assms(2) served(2) by (intro elapsed_update) (auto simp: inv_time_def)
  ultimately have "inv_time (arrival_served_exact a i s)"
    using assms(2) served(2) top by (auto simp: inv_time_def arrival_served_exact_def)
  with served show ?thesis by simp
next
  case (waits a)
  have top: "0 \<le> transactionTime a"
    using assms(2,3) waits(1) pq_top_in [of "eventQueue s"] by (auto simp: inv_time_def)
  have "inv_time (arrival_waits a s)"
    using assms(2,3) top set_pq_pop by (auto simp: inv_time_def arrival_waits_def)
  with waits show ?thesis by simp
next
  case (idle d since)
  note b = top_departure_busy [OF assms(1,3) idle(1)]
  let ?i = "tellerIndex d"
  let ?t = "(tellers s ! ?i)\<lparr>elapsedTimeBusy :=
              elapsedTimeBusy (tellers s ! ?i) + (departureTime d - since), startBusy := None\<rparr>"
  have top: "since \<le> departureTime d"
    using assms(2,3) idle(1,4) pq_top_in [of "eventQueue s"] by (auto simp: inv_time_def)
  have "event_timely ((tellers s)[?i := ?t]) e" if "e \<in> set (pq_pop (eventQueue s))" for e
    using event_timely_update [OF _ that b(3)] that assms(2,3) set_pq_pop
    by (auto simp: inv_time_def)
  moreover have "\<forall>t\<in>set ((tellers s)[?i := ?t]). 0 \<le> elapsedTimeBusy t"
    using assms(2) idle(3) top by (intro elapsed_update) (auto simp: inv_time_def)
  ultimately have "inv_time (departure_idle_exact d since s)"
    using assms(2) by (auto simp: inv_time_def departure_idle_exact_def)
  with idle show ?thesis by simp
next
  case (follows d since c cs)
  note b = top_departure_busy [OF assms(1,3) follows(1)]
  let ?i = "tellerIndex d"
  let ?t = "(tellers s ! ?i)\<lparr>elapsedTimeBusy :=
              elapsedTimeBusy (tellers s ! ?i) + (departureTime d - since),
              startBusy := Some (departureTime d)\<rparr>"
  have top: "since \<le> departureTime d"
    using assms(2,3) follows(1,4) pq_top_in [of "eventQueue s"] by (auto simp: inv_time_def)
  have c: "0 \<le> transactionTime (arrivalEvent c)" "\<forall>c\<in>set cs. 0 \<le> transactionTime (arrivalEvent c)"
    using assms(2) follows(2) by (auto simp: inv_time_def)
  have "event_timely ((tellers s)[?i := ?t]) e" if "e \<in> set (pq_pop (eventQueue s))" for e
    using event_timely_update [OF _ that b(3)] that assms(2,3) set_pq_pop
    by (auto simp: inv_time_def)
  moreover have "\<forall>t\<in>set ((tellers s)[?i := ?t]). 0 \<le> elapsedTimeBusy t"
    using assms(2) follows(3) top by (intro elapsed_update) (auto simp: inv_time_def)
  ultimately have "inv_time (departure_next_exact d since c cs s)"
    using assms(2) c follows(3) by (auto simp: inv_time_def departure_next_exact_def)
  with follows show ?thesis by simp
qed

lemma body_preserves_work:
  assumes "inv_busy s" "eventQueue s \<noteq> []" and t: "inv_time s"
    and r: "inv_range A T s" and bound: "A + T \<le> INT_MAX"
  shows "\<exists>s'. runSimulation_body s = (Inr (), s') \<and> work s' = work s"
  using assms(1) t r bound assms(2)
proof (cases rule: body_cases_exact)
  case (served a i)
  then show ?thesis
    using sum_mset_pq_pop [OF assms(2), of event_work]
    by (simp add: work_def arrival_served_exact_def sum_list_map_update teller_credit_def)
next
  case (waits a)
  then show ?thesis
    using sum_mset_pq_pop [OF assms(2), of event_work]
    by (simp add: work_def arrival_waits_def)
next
  case (idle d since)
  then show ?thesis
    using sum_mset_pq_pop [OF assms(2), of event_work]
    by (simp add: work_def departure_idle_exact_def sum_list_map_update teller_credit_def)
next
  case (follows d since c cs)
  then show ?thesis
    using sum_mset_pq_pop [OF assms(2), of event_work]
    by (simp add: work_def departure_next_exact_def sum_list_map_update teller_credit_def)
qed

text \<open>
  After such a pass the queue is a heap again, and no event in it, whether it was there
  before or was pushed by the pass, is earlier than the event the pass popped.
\<close>

lemma body_not_earlier:
  assumes "inv_busy s" "inv_time s" "is_heap (eventQueue s)" "eventQueue s \<noteq> []"
    and r: "inv_range A T s" and bound: "A + T \<le> INT_MAX"
  shows "\<exists>s'. runSimulation_body s = (Inr (), s') \<and> is_heap (eventQueue s') \<and>
           (\<forall>e'\<in>set (eventQueue s').
              get_event_time (pq_top (eventQueue s)) \<le> get_event_time e')"
proof -
  let ?q = "eventQueue s"
  have rest: "get_event_time (pq_top ?q) \<le> get_event_time e'" if "e' \<in> set (pq_pop ?q)" for e'
    using pq_top_least [OF assms(3)] set_pq_pop [OF assms(4) that] by simp
  have hp: "is_heap (pq_pop ?q)" using assms(3) by (rule is_heap_pq_pop)
  have top: "event_timely (tellers s) (pq_top ?q)"
    using assms(2,4) pq_top_in [of ?q] by (simp add: inv_time_def)
  from assms(1,2) r bound assms(4) show ?thesis
  proof (cases rule: body_cases_exact)
    case (served a i)
    with top rest hp show ?thesis
      by (auto simp: arrival_served_exact_def is_heap_pq_push)
  next
    case (waits a)
    with rest hp show ?thesis by (auto simp: arrival_waits_def)
  next
    case (idle d since)
    with rest hp show ?thesis by (auto simp: departure_idle_exact_def)
  next
    case (follows d since c cs)
    with assms(2) have "0 \<le> transactionTime (arrivalEvent c)" by (simp add: inv_time_def)
    with follows rest hp show ?thesis
      by (auto simp: departure_next_exact_def is_heap_pq_push)
  qed
qed

lemma body_preserves_range:
  assumes b: "inv_busy s" and t: "inv_time s" and hp: "is_heap (eventQueue s)"
    and r: "inv_range A T s" and ne: "eventQueue s \<noteq> []" and T: "0 \<le> T"
    and bound: "A + T \<le> INT_MAX"
  shows "\<exists>s'. runSimulation_body s = (Inr (), s') \<and> inv_range A T s'"
proof -
  let ?q = "eventQueue s"
  let ?top = "pq_top ?q"
  let ?P = "\<lambda>q' t. teller_in_range (A + T) t \<and>
        (startBusy t = None \<longrightarrow> (\<forall>e\<in>set q'. elapsedTimeBusy t \<le> get_event_time e))"
  have top_in: "?top \<in> set ?q" using ne by (rule pq_top_in)
  have sub: "e \<in> set ?q" if "e \<in> set (pq_pop ?q)" for e using set_pq_pop [OF ne that] .
  have least: "get_event_time ?top \<le> get_event_time e" if "e \<in> set ?q" for e
    using pq_top_least [OF hp that] .
  have u: "unserved s = remaining ?top + (\<Sum>e\<in>#mset (pq_pop ?q). remaining e)
     + sum_list (map (\<lambda>c. transactionTime (arrivalEvent c)) (bankLine s))"
    using sum_mset_pq_pop [OF ne, of remaining] by (simp add: unserved_def)
  have u0: "0 \<le> unserved s" using t by (rule unserved_nonneg)
  from r have rT: "unserved s \<le> T"
    and rq: "\<And>e. e \<in> set ?q \<Longrightarrow> event_in_range A (A + T - unserved s) e"
    and rt: "\<And>t. t \<in> set (tellers s) \<Longrightarrow> ?P ?q t"
    by (auto simp: inv_range_def)
  have rt_pop: "\<forall>t\<in>set (tellers s). ?P (pq_pop ?q) t" using rt sub by blast
  have rt_push: "\<forall>t\<in>set (tellers s). ?P (pq_push e' (pq_pop ?q)) t"
    if e': "get_event_time ?top \<le> get_event_time e'" for e'
  proof
    fix t assume "t \<in> set (tellers s)"
    note p = rt [OF this]
    have "elapsedTimeBusy t \<le> get_event_time e'" if "startBusy t = None"
      using p that top_in e' by force
    with p sub show "?P (pq_push e' (pq_pop ?q)) t" by auto
  qed
  from b t r bound ne show ?thesis
  proof (cases rule: body_cases_exact)
    case (served a i)
    let ?c = "arrivalTime a" and ?x = "transactionTime a"
    let ?d = "Departure \<lparr>departureTime = ?c + ?x, tellerIndex = i\<rparr>"
    let ?t = "(tellers s ! i)\<lparr>startBusy := Some ?c\<rparr>"
    let ?s' = "arrival_served_exact a i s"
    from served t top_in have x: "0 \<le> ?x" by (auto simp: inv_time_def)
    from served rq [OF top_in] have c: "0 \<le> ?c" "?c \<le> A" by auto
    have u': "unserved ?s' = unserved s - ?x" using u served by (simp add: unserved_def arrival_served_exact_def)
    have ti: "tellers s ! i \<in> set (tellers s)" using served by simp
    have "\<forall>e\<in>set (eventQueue ?s'). event_in_range A (A + T - unserved ?s') e"
      using rq sub x c rT u' event_in_range_mono [of A "A + T - unserved s" _ "A + T - unserved ?s'"]
      by (auto simp: arrival_served_exact_def)
    moreover have "\<forall>t\<in>set (tellers s). ?P (eventQueue ?s') t"
      using rt_push [of ?d] served(1) x by (simp add: arrival_served_exact_def)
    then have "\<forall>t\<in>set ((tellers s)[i := ?t]). ?P (eventQueue ?s') t"
    proof (rule tellers_update_range)
      have "elapsedTimeBusy (tellers s ! i) \<le> ?c"
        using rt [OF ti] served top_in by force
      with rt [OF ti] c T show "?P (eventQueue ?s') ?t" by (simp add: teller_in_range_def)
    qed
    ultimately have "inv_range A T ?s'"
      using rT u' x by (simp add: inv_range_def) (simp add: arrival_served_exact_def)
    with served show ?thesis by simp
  next
    case (waits a)
    let ?s' = "arrival_waits a s"
    have u': "unserved ?s' = unserved s" using u waits by (simp add: unserved_def arrival_waits_def)
    have "inv_range A T ?s'"
      using rT rq rt_pop sub u' by (simp add: inv_range_def) (simp add: arrival_waits_def)
    with waits show ?thesis by simp
  next
    case (idle d since)
    let ?c = "departureTime d" and ?i = "tellerIndex d"
    let ?t = "(tellers s ! ?i)\<lparr>elapsedTimeBusy := elapsedTimeBusy (tellers s ! ?i) + (?c - since),
             startBusy := None\<rparr>"
    let ?s' = "departure_idle_exact d since s"
    have u': "unserved ?s' = unserved s" using u idle by (simp add: unserved_def departure_idle_exact_def)
    have ti: "tellers s ! ?i \<in> set (tellers s)" using idle by simp
    from idle rq [OF top_in] u0 have c: "?c \<le> A + T" by auto
    from rt [OF ti] idle have el: "elapsedTimeBusy (tellers s ! ?i) \<le> since"
      by (simp add: teller_in_range_def)
    have "\<forall>t\<in>set ((tellers s)[?i := ?t]). ?P (pq_pop ?q) t"
      using rt_pop
    proof (rule tellers_update_range)
      show "?P (pq_pop ?q) ?t"
        using el c least idle by (fastforce simp: teller_in_range_def dest: sub)
    qed
    then have "inv_range A T ?s'"
      using rT rq sub u' by (simp add: inv_range_def) (simp add: departure_idle_exact_def)
    with idle show ?thesis by simp
  next
    case (follows d since c cs)
    let ?c = "departureTime d" and ?i = "tellerIndex d"
    let ?x = "transactionTime (arrivalEvent c)"
    let ?t = "(tellers s ! ?i)\<lparr>elapsedTimeBusy := elapsedTimeBusy (tellers s ! ?i) + (?c - since),
             startBusy := Some ?c\<rparr>"
    let ?s' = "departure_next_exact d since c cs s"
    from follows t have x: "0 \<le> ?x" by (simp add: inv_time_def)
    have u': "unserved ?s' = unserved s - ?x"
      using u follows by (simp add: unserved_def departure_next_exact_def)
    have ti: "tellers s ! ?i \<in> set (tellers s)" using follows by simp
    from follows rq [OF top_in] have cu: "?c \<le> A + T - unserved s" by auto
    with u0 have c: "?c \<le> A + T" by simp
    from rt [OF ti] follows have el: "elapsedTimeBusy (tellers s ! ?i) \<le> since" "0 \<le> since"
      by (simp_all add: teller_in_range_def)
    from follows t top_in have sc: "since \<le> ?c" by (auto simp: inv_time_def)
    have "\<forall>e\<in>set (eventQueue ?s'). event_in_range A (A + T - unserved ?s') e"
      using rq sub x cu u' event_in_range_mono [of A "A + T - unserved s" _ "A + T - unserved ?s'"]
      by (auto simp: departure_next_exact_def)
    moreover have "\<forall>t\<in>set (tellers s). ?P (eventQueue ?s') t"
      using rt_push [of "Departure \<lparr>departureTime = ?c + ?x, tellerIndex = ?i\<rparr>"] follows(1) x
      by (simp add: departure_next_exact_def)
    then have "\<forall>t\<in>set ((tellers s)[?i := ?t]). ?P (eventQueue ?s') t"
    proof (rule tellers_update_range)
      show "?P (eventQueue ?s') ?t" using el c sc by (simp add: teller_in_range_def)
    qed
    ultimately have "inv_range A T ?s'"
      using rT u' x by (simp add: inv_range_def) (simp add: departure_next_exact_def)
    with follows show ?thesis by simp
  qed
qed

lemma is_heap_push_arrivals: "is_heap q \<Longrightarrow> is_heap (push_arrivals inp q)"
  by (induction inp q rule: push_arrivals.induct) (simp_all add: is_heap_pq_push)

lemma fresh_state_heap: "is_heap (eventQueue (fresh_state n inp))"
  by (simp add: fresh_state_def is_heap_push_arrivals)

lemma unserved_fresh: "unserved (fresh_state n inp) = sum_list (map transactionTime inp)"
proof -
  have "(\<Sum>a\<in>#mset inp. remaining (Arrival a)) = sum_list (map transactionTime inp)"
    by (induction inp) simp_all
  then show ?thesis
    by (simp add: unserved_def fresh_state_def mset_push_arrivals multiset.map_comp comp_def)
qed

lemma fresh_state_range:
  assumes "\<forall>a\<in>set inp. 0 \<le> arrivalTime a \<and> arrivalTime a \<le> A \<and> 0 \<le> transactionTime a" "0 \<le> A"
  shows "inv_range A (sum_list (map transactionTime inp)) (fresh_state n inp)"
proof -
  have q: "set (eventQueue (fresh_state n inp)) = Arrival ` set inp"
    by (metis mset_push_arrivals add.right_neutral mset.simps(1) set_mset_mset set_map
        fresh_state_def BankSim3000.select_convs(2))
  have "0 \<le> sum_list (map transactionTime inp)" using assms(1) by (intro sum_list_nonneg) auto
  with assms q show ?thesis
    by (auto simp: inv_range_def unserved_fresh teller_in_range_def)
      (auto simp: fresh_state_def new_Teller_def)
qed

subsection \<open>The invariant of a run without overflow\<close>

definition inv_exact :: "Time \<Rightarrow> Time \<Rightarrow> BankSim3000 \<Rightarrow> bool" where
  "inv_exact A T s \<longleftrightarrow>
     inv_busy s \<and> inv_line s \<and> inv_time s \<and> is_heap (eventQueue s) \<and> inv_range A T s"

lemma body_preserves_exact:
  assumes i: "inv_exact A T s" and bound: "A + T \<le> INT_MAX" and ne: "eventQueue s \<noteq> []"
  shows "\<exists>s'. runSimulation_body s = (Inr (), s') \<and> inv_exact A T s' \<and> work s' = work s \<and>
           length (tellers s') = length (tellers s) \<and>
           (\<forall>e'\<in>set (eventQueue s').
              get_event_time (pq_top (eventQueue s)) \<le> get_event_time e')"
proof -
  from i have b: "inv_busy s" and l: "inv_line s" and t: "inv_time s"
    and hp: "is_heap (eventQueue s)" and r: "inv_range A T s"
    by (simp_all add: inv_exact_def)
  from unserved_nonneg [OF t] r have T: "0 \<le> T" by (simp add: inv_range_def)
  from body_preserves_busy_line [OF b l ne] body_preserves_time [OF b t ne r bound]
    body_preserves_work [OF b ne t r bound] body_not_earlier [OF b t hp ne r bound]
    body_preserves_range [OF b t hp r ne T bound]
  show ?thesis by (auto simp: inv_exact_def)
qed

lemma fresh_state_exact:
  assumes "\<forall>a\<in>set inp. 0 \<le> arrivalTime a \<and> arrivalTime a \<le> A \<and> 0 \<le> transactionTime a" "0 \<le> A"
  shows "inv_exact A (sum_list (map transactionTime inp)) (fresh_state n inp)"
proof -
  have "inv_time (fresh_state n inp)" using assms(1) by (intro fresh_state_time) simp
  with fresh_state_inv fresh_state_heap fresh_state_range [OF assms] show ?thesis
    by (simp add: inv_exact_def)
qed

lemma runSimulation_exact:
  assumes i: "inv_exact A T s" and bound: "A + T \<le> INT_MAX"
  shows "\<exists>s'. runSimulation s = (Inr (), s') \<and> inv_exact A T s' \<and> work s' = work s \<and>
           eventQueue s' = []"
    and "(e, st) \<in> set (runSimulation_trace s) \<Longrightarrow>
           inv_exact A T st \<and> eventQueue st \<noteq> [] \<and> e = pq_top (eventQueue st)"
proof -
  define I where "I = (\<lambda>s'. inv_exact A T s' \<and> work s' = work s)"
  have s: "I s" using i by (simp add: I_def)
  have step: "\<exists>s'. runSimulation_body u = (Inr (), s') \<and> I s'"
    if "I u" "eventQueue u \<noteq> []" for u
    using body_preserves_exact [of A T u] that bound by (auto simp: I_def)
  from s step have "\<exists>s'. runSimulation s = (Inr (), s') \<and> I s' \<and> eventQueue s' = []"
    by (rule runSimulation_invariant)
  then show "\<exists>s'. runSimulation s = (Inr (), s') \<and> inv_exact A T s' \<and> work s' = work s \<and>
           eventQueue s' = []"
    by (auto simp: I_def)
  assume "(e, st) \<in> set (runSimulation_trace s)"
  with s step have "I st \<and> eventQueue st \<noteq> [] \<and> e = pq_top (eventQueue st)"
    by (rule runSimulation_trace_invariant)
  then show "inv_exact A T st \<and> eventQueue st \<noteq> [] \<and> e = pq_top (eventQueue st)"
    by (simp add: I_def)
qed

subsection \<open>Events are popped in time order\<close>



subsection \<open>Every time stays in range\<close>

text \<open>Every time stored in the object is between 0 and \<open>B\<close>.\<close>

definition times_within :: "Time \<Rightarrow> BankSim3000 \<Rightarrow> bool" where
  "times_within B s \<longleftrightarrow>
     (\<forall>e\<in>set (eventQueue s). 0 \<le> get_event_time e \<and> get_event_time e \<le> B) \<and>
     (\<forall>t\<in>set (tellers s). 0 \<le> elapsedTimeBusy t \<and> elapsedTimeBusy t \<le> B \<and>
        (case startBusy t of None \<Rightarrow> True | Some since \<Rightarrow> 0 \<le> since \<and> since \<le> B))"

lemma inv_times_within:
  assumes b: "inv_busy s" and t: "inv_time s" and r: "inv_range A T s"
  shows "times_within (A + T) s"
proof -
  have u0: "0 \<le> unserved s" using t by (rule unserved_nonneg)
  have "0 \<le> get_event_time e \<and> get_event_time e \<le> A + T" if e: "e \<in> set (eventQueue s)" for e
  proof (cases e)
    case (Arrival a)
    with r e have "0 \<le> arrivalTime a \<and> arrivalTime a \<le> A" by (auto simp: inv_range_def)
    moreover from r u0 have "0 \<le> T" by (simp add: inv_range_def)
    ultimately show ?thesis using Arrival by simp
  next
    case (Departure d)
    let ?i = "tellerIndex d"
    from e Departure have "?i \<in># dep_indices (eventQueue s)" by (simp add: dep_indices_member)
    with b have "?i \<in> busy_set (tellers s)" by (simp add: inv_busy_def elem_mset_set)
    then obtain since where i: "?i < length (tellers s)" "startBusy (tellers s ! ?i) = Some since"
      by (auto simp: busy_set_def)
    then have "tellers s ! ?i \<in> set (tellers s)" by simp
    with r have "teller_in_range (A + T) (tellers s ! ?i)" by (simp add: inv_range_def)
    with i have "0 \<le> since" by (simp add: teller_in_range_def)
    moreover from t e Departure i have "since \<le> departureTime d" by (auto simp: inv_time_def)
    moreover from r e Departure u0 have "departureTime d \<le> A + T" by (auto simp: inv_range_def)
    ultimately show ?thesis using Departure by simp
  qed
  moreover have "0 \<le> elapsedTimeBusy x \<and> elapsedTimeBusy x \<le> A + T \<and>
        (case startBusy x of None \<Rightarrow> True | Some since \<Rightarrow> 0 \<le> since \<and> since \<le> A + T)"
    if "x \<in> set (tellers s)" for x
    using r t that by (auto simp: inv_range_def inv_time_def teller_in_range_def split: option.splits)
  ultimately show ?thesis by (simp add: times_within_def)
qed

text \<open>
  The inputs of such runs: no time is negative, and every arrival time with the sum of
  all the transaction times added to it is at most \<open>INT_MAX\<close>.
\<close>

definition input_in_range :: "ArrivalEvent list \<Rightarrow> bool" where
  "input_in_range inp \<longleftrightarrow>
     (\<forall>a\<in>set inp. 0 \<le> arrivalTime a \<and> 0 \<le> transactionTime a \<and>
        arrivalTime a + sum_list (map transactionTime inp) \<le> INT_MAX)"

lemma input_in_range_bound:
  assumes "input_in_range inp"
  shows "\<exists>A. 0 \<le> A \<and> A + sum_list (map transactionTime inp) \<le> INT_MAX \<and>
           (\<forall>a\<in>set inp. 0 \<le> arrivalTime a \<and> arrivalTime a \<le> A \<and> 0 \<le> transactionTime a)"
proof (cases "inp = []")
  case True
  then show ?thesis by (intro exI [of _ 0]) (simp add: INT_MAX_def)
next
  case False
  let ?A = "Max (arrivalTime ` set inp)"
  from False have "?A \<in> arrivalTime ` set inp" by (intro Max_in) auto
  then obtain a where a: "a \<in> set inp" "?A = arrivalTime a" by auto
  with assms have "0 \<le> ?A \<and> ?A + sum_list (map transactionTime inp) \<le> INT_MAX"
    by (auto simp: input_in_range_def)
  moreover have "\<forall>a\<in>set inp. arrivalTime a \<le> ?A" by simp
  ultimately show ?thesis using assms by (intro exI [of _ ?A]) (auto simp: input_in_range_def)
qed

text \<open>
  A run over such an input: it returns, no teller's busy time is negative, the busy
  times add up to the transaction times of the input, and every time in the object,
  whenever an event is popped and when the run ends, is between 0 and \<open>INT_MAX\<close>.
\<close>

lemma exact_run:
  assumes "input_in_range inp"
  shows "\<exists>A s2. runSimulation (fresh_state n inp) = (Inr (), s2) \<and>
           A + sum_list (map transactionTime inp) \<le> INT_MAX \<and>
           inv_exact A (sum_list (map transactionTime inp)) (fresh_state n inp) \<and>
           inv_exact A (sum_list (map transactionTime inp)) s2 \<and> eventQueue s2 = [] \<and>
           work s2 = sum_list (map transactionTime inp)"
proof -
  let ?T = "sum_list (map transactionTime inp)"
  from input_in_range_bound [OF assms] obtain A where
    A: "0 \<le> A" "A + ?T \<le> INT_MAX"
      "\<forall>a\<in>set inp. 0 \<le> arrivalTime a \<and> arrivalTime a \<le> A \<and> 0 \<le> transactionTime a"
    by blast
  have i: "inv_exact A ?T (fresh_state n inp)" using A(3,1) by (rule fresh_state_exact)
  from runSimulation_exact(1) [OF i A(2)] i A(2) show ?thesis
    by (auto simp: work_fresh)
qed

lemma run_times_within:
  assumes "input_in_range inp"
  shows "\<forall>(e, st)\<in>set (runSimulation_trace (fresh_state n inp)). times_within INT_MAX st"
    and "times_within INT_MAX (snd (runSimulation (fresh_state n inp)))"
proof -
  let ?T = "sum_list (map transactionTime inp)"
  from exact_run [OF assms, of n] obtain A s2 where
    r: "runSimulation (fresh_state n inp) = (Inr (), s2)" "A + ?T \<le> INT_MAX"
      "inv_exact A ?T (fresh_state n inp)" "inv_exact A ?T s2"
    by blast
  have w: "times_within INT_MAX st" if "inv_exact A ?T st" for st
  proof -
    from that have "times_within (A + ?T) st"
      by (intro inv_times_within) (simp_all add: inv_exact_def)
    with r(2) show ?thesis by (fastforce simp: times_within_def split: option.splits)
  qed
  from w r(1,4) show "times_within INT_MAX (snd (runSimulation (fresh_state n inp)))" by simp
  show "\<forall>(e, st)\<in>set (runSimulation_trace (fresh_state n inp)). times_within INT_MAX st"
    using runSimulation_exact(2) [OF r(3,2)] w by auto
qed


section \<open>Claims about a run\<close>







text \<open>
  Claim C3. \<^verbatim>\<open>setupSimulation\<close>, and \<^verbatim>\<open>maxTellerBusyTime\<close> through it, called with a teller
  count less than 1 or greater than 5 throws \<^verbatim>\<open>invalid_argument\<close> and leaves the object
  (input, event queue, bank line, tellers) as it was. With a count from 1 to 5 it does
  not throw \<^verbatim>\<open>invalid_argument\<close>, and it returns whenever its two assertions hold, that
  is, on every object that \<open>reachable\<close> describes.
\<close>

theorem invalid_teller_count:
  "(n < MIN_TELLERS \<or> MAX_TELLERS < n \<longrightarrow>
      (\<exists>msg. setupSimulation n s = (Inl (InvalidArgument msg), s) \<and>
         maxTellerBusyTime n s = (Inl (InvalidArgument msg), s))) \<and>
   (MIN_TELLERS \<le> n \<and> n \<le> MAX_TELLERS \<longrightarrow>
      (\<forall>msg. fst (setupSimulation n s) \<noteq> Inl (InvalidArgument msg)) \<and>
      (eventQueue s = [] \<and> bankLine s = [] \<longrightarrow> fst (setupSimulation n s) = Inr ()))"
proof (intro conjI impI)
  assume "n < MIN_TELLERS \<or> MAX_TELLERS < n"
  then show "\<exists>msg. setupSimulation n s = (Inl (InvalidArgument msg), s) \<and>
         maxTellerBusyTime n s = (Inl (InvalidArgument msg), s)"
    by (rule maxTellerBusyTime_invalid)
next
  assume "MIN_TELLERS \<le> n \<and> n \<le> MAX_TELLERS"
  then show "\<forall>msg. fst (setupSimulation n s) \<noteq> Inl (InvalidArgument msg)"
    by (auto simp: setupSimulation_def setupEventQueue_def clearBankLine_def
        split: prod.splits sum.splits if_splits)
next
  assume "MIN_TELLERS \<le> n \<and> n \<le> MAX_TELLERS" "eventQueue s = [] \<and> bankLine s = []"
  then show "fst (setupSimulation n s) = Inr ()"
    by (simp add: setupSimulation_valid)
qed

theorem invalid_teller_count_witness:
  "setupSimulation 0 (new_BankSim3000 SimulationInput00) =
     (Inl (InvalidArgument ''Teller count must >= 1''), new_BankSim3000 SimulationInput00) \<and>
   setupSimulation 6 (new_BankSim3000 SimulationInput00) =
     (Inl (InvalidArgument ''Teller count must be <= 5''), new_BankSim3000 SimulationInput00) \<and>
   fst (setupSimulation 5 (new_BankSim3000 SimulationInput00)) = Inr ()"
  using invalid_teller_count [of 0 "new_BankSim3000 SimulationInput00"]
    invalid_teller_count [of 6 "new_BankSim3000 SimulationInput00"]
    invalid_teller_count [of 5 "new_BankSim3000 SimulationInput00"]
  by (simp add: setupSimulation_def to_string_bounds)
    (simp add: MIN_TELLERS_def MAX_TELLERS_def new_BankSim3000_def)







text \<open>
  Claim C7. For every input and every teller count from 1 to 5, when the loop of the
  simulation ends (the event queue is empty) the bank line is empty.
\<close>

theorem bank_line_empty_at_end:
  assumes "MIN_TELLERS \<le> n" "n \<le> MAX_TELLERS" "eventQueue s = []" "bankLine s = []"
  shows "\<exists>s1 s2. setupSimulation n s = (Inr (), s1) \<and> runSimulation s1 = (Inr (), s2) \<and>
           eventQueue s2 = [] \<and> bankLine s2 = []"
  using valid_run [OF assms] by blast

theorem bank_line_empty_at_end_witness:
  "MIN_TELLERS \<le> 1 \<and> 1 \<le> MAX_TELLERS \<and>
   eventQueue (new_BankSim3000 SimulationInput00) = [] \<and>
   bankLine (new_BankSim3000 SimulationInput00) = [] \<and>
   (\<exists>s1 s2. setupSimulation 1 (new_BankSim3000 SimulationInput00) = (Inr (), s1) \<and>
      runSimulation s1 = (Inr (), s2) \<and> eventQueue s2 = [] \<and> bankLine s2 = [])"
  using bank_line_empty_at_end [of 1 "new_BankSim3000 SimulationInput00"]
  by (simp add: MIN_TELLERS_def MAX_TELLERS_def new_BankSim3000_def)

text \<open>
  Claim C8. For every input of \<open>K\<close> arrival events and every teller count from 1 to 5,
  the loop of the simulation ends (\<open>runSimulation\<close> is a total function, and it returns
  without an exception), and it pops at most \<open>2 * K\<close> events.
\<close>

theorem events_at_most_twice_arrivals:
  assumes "MIN_TELLERS \<le> n" "n \<le> MAX_TELLERS" "eventQueue s = []" "bankLine s = []"
  shows "\<exists>s1 s2. setupSimulation n s = (Inr (), s1) \<and> runSimulation s1 = (Inr (), s2) \<and>
           length (runSimulation_events s1) \<le> 2 * length (simulationInput s)"
proof -
  let ?s1 = "fresh_state n (simulationInput s)"
  have "length (runSimulation_events ?s1) \<le> 2 * length (simulationInput s)"
    using length_trace_le_weight [of ?s1] by (simp add: runSimulation_events_def sim_weight_fresh)
  with valid_run [OF assms] show ?thesis by blast
qed

theorem events_at_most_twice_arrivals_witness:
  "MIN_TELLERS \<le> 3 \<and> 3 \<le> MAX_TELLERS \<and>
   eventQueue (new_BankSim3000 SimulationInput00) = [] \<and>
   bankLine (new_BankSim3000 SimulationInput00) = [] \<and>
   (\<exists>s1 s2. setupSimulation 3 (new_BankSim3000 SimulationInput00) = (Inr (), s1) \<and>
      runSimulation s1 = (Inr (), s2) \<and> length (runSimulation_events s1) \<le> 8)"
  using events_at_most_twice_arrivals [of 3 "new_BankSim3000 SimulationInput00"]
  by (simp add: MIN_TELLERS_def MAX_TELLERS_def new_BankSim3000_def SimulationInput00_def)

text \<open>
  Claim C9. A second call of \<^verbatim>\<open>maxTellerBusyTime\<close> with the same teller count, on the
  object the first call leaves behind, returns what the first call returned and leaves
  the same object behind; \<^verbatim>\<open>setupSimulation\<close> builds the same state both times.
\<close>

theorem run_twice_same_result:
  assumes "eventQueue s = []" "bankLine s = []"
  shows "maxTellerBusyTime n (snd (maxTellerBusyTime n s)) = maxTellerBusyTime n s \<and>
         setupSimulation n (snd (maxTellerBusyTime n s)) = setupSimulation n s"
proof (cases "MIN_TELLERS \<le> n \<and> n \<le> MAX_TELLERS")
  case True
  then have v: "MIN_TELLERS \<le> n" "n \<le> MAX_TELLERS" by simp_all
  from maxTellerBusyTime_valid [OF v assms] obtain s2 where
    r: "maxTellerBusyTime n s = (results_maxTellerBusyTime (gatherResults s2), s2)"
      "runSimulation (fresh_state n (simulationInput s)) = (Inr (), s2)"
      "eventQueue s2 = []" "bankLine s2 = []" "simulationInput s2 = simulationInput s"
    by blast
  from maxTellerBusyTime_valid [OF v r(3,4)] r(2,5)
  have "maxTellerBusyTime n s2 = (results_maxTellerBusyTime (gatherResults s2), s2)" by auto
  moreover have "setupSimulation n s2 = setupSimulation n s"
    using setupSimulation_valid [OF v assms] setupSimulation_valid [OF v r(3,4)] r(5) by simp
  ultimately show ?thesis using r(1) by simp
next
  case False
  with maxTellerBusyTime_invalid [of n s] show ?thesis by auto
qed

theorem run_twice_same_result_witness:
  "eventQueue (new_BankSim3000 SimulationInput00) = [] \<and>
   bankLine (new_BankSim3000 SimulationInput00) = [] \<and>
   maxTellerBusyTime 2 (snd (maxTellerBusyTime 2 (new_BankSim3000 SimulationInput00))) =
     maxTellerBusyTime 2 (new_BankSim3000 SimulationInput00) \<and>
   fst (maxTellerBusyTime 2 (snd (maxTellerBusyTime 2 (new_BankSim3000 SimulationInput00)))) = Inr 11"
  using run_twice_same_result [of "new_BankSim3000 SimulationInput00" 2]
  by (simp add: new_BankSim3000_def) code_simp




section \<open>The reference input\<close>

text \<open>
  \<^verbatim>\<open>main\<close> builds one object over its input and calls \<^verbatim>\<open>maxTellerBusyTime\<close> on it with
  1, 2, 3, 4 and 5 tellers in turn, printing each result. An exception would end it.
\<close>

fun print_results :: "nat list \<Rightarrow> BankSim3000 \<Rightarrow> (error + Time) list" where
  "print_results [] s = []"
| "print_results (tellerCount # rest) s =
     (case maxTellerBusyTime tellerCount s of
        (Inl e, s') \<Rightarrow> [Inl e]
      | (Inr t, s') \<Rightarrow> Inr t # print_results rest s')"

definition main_results :: "(error + Time) list" where
  "main_results = print_results [1, 2, 3, 4, 5] (new_BankSim3000 SimulationInput00)"

lemma main_prints: "main_results = [Inr 15, Inr 11, Inr 9, Inr 9, Inr 9]"
  by code_simp

text \<open>
  Claim C5. On the input \<open>{(20,6), (22,4), (23,2), (30,3)}\<close> a run with 1 teller returns
  a greatest teller busy time of 15.
\<close>

theorem reference_one_teller:
  "fst (maxTellerBusyTime 1 (new_BankSim3000 SimulationInput00)) = Inr 15"
  by code_simp

text \<open>The events that the run with 2 tellers pops, in order.\<close>

lemma reference_two_tellers_events:
  "runSimulation_events (snd (setupSimulation 2 (new_BankSim3000 SimulationInput00))) =
     [Arrival \<lparr>arrivalTime = 20, transactionTime = 6\<rparr>,
      Arrival \<lparr>arrivalTime = 22, transactionTime = 4\<rparr>,
      Arrival \<lparr>arrivalTime = 23, transactionTime = 2\<rparr>,
      Departure \<lparr>departureTime = 26, tellerIndex = 0\<rparr>,
      Departure \<lparr>departureTime = 26, tellerIndex = 1\<rparr>,
      Departure \<lparr>departureTime = 28, tellerIndex = 0\<rparr>,
      Arrival \<lparr>arrivalTime = 30, transactionTime = 3\<rparr>,
      Departure \<lparr>departureTime = 33, tellerIndex = 0\<rparr>]"
  by code_simp

text \<open>
  Claim C2 says that on the same input a run with 2 tellers returns 9. It does not, on a
  new object or, as in \<^verbatim>\<open>main\<close>, on the object that the run with 1 teller leaves. Both
  tellers are due to finish at time 26 while the customer of time 23 waits. The queue
  holds the departure of teller 0 on top, so teller 0 serves that customer (busy 20 to 28)
  and teller 1 stops at 26. At time 30 teller 0 is again the idle teller of lowest index
  and serves the last customer too: teller 0 has worked 6 + 2 + 3 = 11 and teller 1 has
  worked 4.
\<close>

theorem reference_two_tellers_not_9:
  "fst (maxTellerBusyTime 2 (new_BankSim3000 SimulationInput00)) \<noteq> Inr 9 \<and>
   fst (maxTellerBusyTime 2 (snd (maxTellerBusyTime 1 (new_BankSim3000 SimulationInput00))))
     \<noteq> Inr 9"
  by code_simp

text \<open>
  Claim C2, amended. On the input \<open>{(20,6), (22,4), (23,2), (30,3)}\<close> a run with 2
  tellers returns a greatest teller busy time of 11, on a new object and on the object
  that the run with 1 teller leaves.
\<close>

theorem reference_two_tellers:
  "fst (maxTellerBusyTime 2 (new_BankSim3000 SimulationInput00)) = Inr 11 \<and>
   fst (maxTellerBusyTime 2 (snd (maxTellerBusyTime 1 (new_BankSim3000 SimulationInput00))))
     = Inr 11"
  by code_simp

end
